theory Spec2Isabelle
  imports Main "HOL-Library.Multiset" "HOL-Library.AList" "HOL-Library.Countable"
begin


section \<open>Steps of a trace\<close>

text \<open>
  Every generator of the visualizers pushes objects \<^verbatim>\<open>{type, indices, text}\<close> onto an
  array called \<^verbatim>\<open>animations\<close>.  The field \<^verbatim>\<open>type\<close> is the kind of the step and
  \<^verbatim>\<open>indices\<close> lists the array positions it is about.  The field \<^verbatim>\<open>text\<close> is the
  narrative shown to the user; it is never read by any generator or scheduler
  decision and is not part of the model.  Positions are JavaScript numbers and can be
  \<open>-1\<close> (\<^verbatim>\<open>arr.length - 1\<close> of an empty array, \<^verbatim>\<open>i - 1\<close> in the merge), so they are
  integers here.
\<close>

datatype anim_type =
  Compare | Swap | Reset | Final_position | Mark_min | Mark_min_change | Mark_key
  | Shift | Place | Reset_key | Mark_pivot | Reset_compare | Overwrite
  | Compare_range | Found | Not_found | Adjust_range

record animation =
  atype :: anim_type
  indices :: "int list"

definition anim :: "anim_type \<Rightarrow> int list \<Rightarrow> animation" where
  "anim t is = \<lparr>atype = t, indices = is\<rparr>"

section \<open>SortingVisualizer.js\<close>

text \<open>
  The elements of the array are numbers.  Two numbers of equal value cannot be told
  apart, so to make the order of equal elements visible the generators are modelled
  over any type of elements \<open>'a\<close> with a function \<open>val\<close> giving the number an element
  stands for; the program itself runs them with \<open>val = (\<lambda>x. x)\<close> on numbers.  Every
  comparison of the source compares the \<open>val\<close> of two elements.  Numbers are
  integers in the model.
\<close>

datatype sortOrder = Ascending | Descending

record 'a sort_result =
  animations :: "animation list"
  finalArray :: "'a list"

text \<open>\<^verbatim>\<open>[arr[i], arr[j]] = [arr[j], arr[i]]\<close>\<close>

definition swap_elems :: "'a list \<Rightarrow> nat \<Rightarrow> nat \<Rightarrow> 'a list" where
  "swap_elems arr i j = arr[i := arr ! j, j := arr ! i]"

subsection \<open>isArraySorted\<close>

definition isArraySorted :: "int list \<Rightarrow> sortOrder \<Rightarrow> bool" where
  "isArraySorted array sortOrder =
    (if length array \<le> 1 then True
     else list_all
       (\<lambda>i. if sortOrder = Ascending then \<not> array ! (i - 1) > array ! i
            else \<not> array ! (i - 1) < array ! i)
       [1..<length array])"

subsection \<open>bubbleSort\<close>

definition shouldSwap :: "('a \<Rightarrow> int) \<Rightarrow> sortOrder \<Rightarrow> 'a \<Rightarrow> 'a \<Rightarrow> bool" where
  "shouldSwap val sortOrder a b = (if sortOrder = Ascending then val a > val b else val a < val b)"

text \<open>The body of the inner loop, for one \<open>j\<close>; the state is \<open>(arr, anims)\<close>, the array and the \<^verbatim>\<open>animations\<close> pushed so far.\<close>

definition bubble_inner ::
  "('a \<Rightarrow> 'a \<Rightarrow> bool) \<Rightarrow> nat \<Rightarrow> 'a list \<times> animation list \<Rightarrow> 'a list \<times> animation list" where
  "bubble_inner shouldSwap' j = (\<lambda>(arr, anims).
     let anims = anims @ [anim Compare [int j, int j + 1]];
         (arr, anims) =
           (if shouldSwap' (arr ! j) (arr ! (j + 1))
            then (swap_elems arr j (j + 1), anims @ [anim Swap [int j, int j + 1]])
            else (arr, anims))
     in (arr, anims @ [anim Reset [int j, int j + 1]]))"

text \<open>The body of the outer loop, for one \<open>i\<close>.\<close>

definition bubble_outer ::
  "('a \<Rightarrow> 'a \<Rightarrow> bool) \<Rightarrow> nat \<Rightarrow> 'a list \<times> animation list \<Rightarrow> 'a list \<times> animation list" where
  "bubble_outer shouldSwap' i = (\<lambda>(arr, anims).
     let (arr, anims) = fold (bubble_inner shouldSwap') [0..<length arr - i - 1] (arr, anims)
     in (arr, anims @ [anim Final_position [int (length arr) - 1 - int i]]))"

definition bubbleSort :: "('a \<Rightarrow> int) \<Rightarrow> 'a list \<Rightarrow> sortOrder \<Rightarrow> 'a sort_result" where
  "bubbleSort val array sortOrder =
    (let (arr, anims) =
           fold (bubble_outer (shouldSwap val sortOrder)) [0..<length array - 1] (array, [])
     in \<lparr>animations = anims @ [anim Final_position [0]], finalArray = arr\<rparr>)"

subsection \<open>selectionSort\<close>

definition shouldUpdateMinIndex :: "('a \<Rightarrow> int) \<Rightarrow> sortOrder \<Rightarrow> 'a \<Rightarrow> 'a \<Rightarrow> bool" where
  "shouldUpdateMinIndex val sortOrder a b =
    (if sortOrder = Ascending then val a > val b else val a < val b)"

text \<open>The inner loop does not write the array; its state is \<open>(minOrMaxIndex, anims)\<close>.\<close>

definition selection_inner ::
  "('a \<Rightarrow> 'a \<Rightarrow> bool) \<Rightarrow> 'a list \<Rightarrow> nat \<Rightarrow> nat \<times> animation list \<Rightarrow> nat \<times> animation list" where
  "selection_inner shouldUpdateMinIndex' arr j = (\<lambda>(minOrMaxIndex, anims).
     let anims = anims @ [anim Compare [int j, int minOrMaxIndex]];
         (minOrMaxIndex, anims) =
           (if shouldUpdateMinIndex' (arr ! minOrMaxIndex) (arr ! j)
            then (j, anims @ [anim Mark_min_change [int j, int minOrMaxIndex]])
            else (minOrMaxIndex, anims))
     in (minOrMaxIndex, anims @ [anim Reset [int j, int minOrMaxIndex]]))"

definition selection_outer ::
  "('a \<Rightarrow> 'a \<Rightarrow> bool) \<Rightarrow> nat \<Rightarrow> 'a list \<times> animation list \<Rightarrow> 'a list \<times> animation list" where
  "selection_outer shouldUpdateMinIndex' i = (\<lambda>(arr, anims).
     let anims = anims @ [anim Mark_min [int i]];
         (minOrMaxIndex, anims) =
           fold (selection_inner shouldUpdateMinIndex' arr) [i + 1..<length arr] (i, anims);
         (arr, anims) =
           (if minOrMaxIndex \<noteq> i
            then (swap_elems arr i minOrMaxIndex,
                  anims @ [anim Swap [int i, int minOrMaxIndex]])
            else (arr, anims))
     in (arr, anims @ [anim Final_position [int i]]))"

definition selectionSort :: "('a \<Rightarrow> int) \<Rightarrow> 'a list \<Rightarrow> sortOrder \<Rightarrow> 'a sort_result" where
  "selectionSort val array sortOrder =
    (let (arr, anims) =
           fold (selection_outer (shouldUpdateMinIndex val sortOrder)) [0..<length array] (array, [])
     in \<lparr>animations = anims @ [anim Final_position [int (length arr) - 1]],
         finalArray = arr\<rparr>)"

subsection \<open>insertionSort\<close>

definition shouldShift :: "('a \<Rightarrow> int) \<Rightarrow> sortOrder \<Rightarrow> 'a \<Rightarrow> 'a \<Rightarrow> bool" where
  "shouldShift val sortOrder a b = (if sortOrder = Ascending then val a > val b else val a < val b)"

text \<open>
  The \<^verbatim>\<open>while (j >= 0 && shouldShift(arr[j], key))\<close> loop.  The counter \<open>j\<close> of the source
  ends at \<open>-1\<close> when the key moves to the front, so the function takes \<open>j + 1\<close>: the
  pattern \<open>Suc j\<close> is the test \<^verbatim>\<open>j >= 0\<close>, and the result is the final \<open>j + 1\<close>.
\<close>

fun insertion_while ::
  "('a \<Rightarrow> 'a \<Rightarrow> bool) \<Rightarrow> 'a \<Rightarrow> nat \<Rightarrow> nat \<Rightarrow> 'a list \<times> animation list
   \<Rightarrow> nat \<times> 'a list \<times> animation list" where
  "insertion_while shouldShift' key i 0 (arr, anims) = (0, arr, anims)"
| "insertion_while shouldShift' key i (Suc j) (arr, anims) =
     (if shouldShift' (arr ! j) key
      then insertion_while shouldShift' key i j
             (arr[j + 1 := arr ! j],
              anims @ [anim Compare [int j, int i], anim Shift [int j, int j + 1]])
      else (Suc j, arr, anims))"

definition insertion_outer ::
  "('a \<Rightarrow> 'a \<Rightarrow> bool) \<Rightarrow> nat \<Rightarrow> 'a list \<times> animation list \<Rightarrow> 'a list \<times> animation list" where
  "insertion_outer shouldShift' i = (\<lambda>(arr, anims).
     let key = arr ! i;
         anims = anims @ [anim Mark_key [int i]];
         (j1, arr, anims) = insertion_while shouldShift' key i i (arr, anims);
         arr = arr[j1 := key]
     in (arr, anims @ [anim Place [int j1, int i], anim Reset_key [int j1, int i]]))"

text \<open>The closing loop \<^verbatim>\<open>for (let i = 0; i < arr.length; i++)\<close> that marks every position.\<close>

definition mark_all_final :: "nat \<Rightarrow> animation list \<Rightarrow> animation list" where
  "mark_all_final n anims =
     fold (\<lambda>i anims. anims @ [anim Final_position [int i]]) [0..<n] anims"

definition insertionSort :: "('a \<Rightarrow> int) \<Rightarrow> 'a list \<Rightarrow> sortOrder \<Rightarrow> 'a sort_result" where
  "insertionSort val array sortOrder =
    (let (arr, anims) =
           fold (insertion_outer (shouldShift val sortOrder)) [1..<length array] (array, []);
         anims = mark_all_final (length arr) anims
     in \<lparr>animations = anims @ [anim Final_position [int (length arr) - 1]],
         finalArray = arr\<rparr>)"

subsection \<open>quickSort\<close>

definition shouldPartition :: "('a \<Rightarrow> int) \<Rightarrow> sortOrder \<Rightarrow> 'a \<Rightarrow> 'a \<Rightarrow> bool" where
  "shouldPartition val sortOrder pivot element =
    (if sortOrder = Ascending then val element \<le> val pivot else val element \<ge> val pivot)"

text \<open>
  The body of the loop of \<^verbatim>\<open>partition\<close>, for one \<open>j\<close>.  The counter \<open>i\<close> of the source
  starts at \<^verbatim>\<open>low - 1\<close>, which is \<open>-1\<close> for \<open>low = 0\<close>; the state holds \<open>i1 = i + 1\<close>.
  \<^verbatim>\<open>i++\<close> followed by the swap of \<^verbatim>\<open>arr[i]\<close> and \<^verbatim>\<open>arr[j]\<close> is a swap at the old \<open>i1\<close>.
\<close>

definition partition_step ::
  "('a \<Rightarrow> 'a \<Rightarrow> bool) \<Rightarrow> 'a \<Rightarrow> nat \<Rightarrow> nat \<Rightarrow> 'a list \<times> nat \<times> animation list
   \<Rightarrow> 'a list \<times> nat \<times> animation list" where
  "partition_step shouldPartition' pivot high j = (\<lambda>(arr, i1, anims).
     let anims = anims @ [anim Compare [int j, int high]];
         (arr, i1, anims) =
           (if shouldPartition' pivot (arr ! j)
            then (swap_elems arr i1 j, i1 + 1, anims @ [anim Swap [int i1, int j]])
            else (arr, i1, anims))
     in (arr, i1, anims @ [anim Reset_compare [int j, int high]]))"

text \<open>\<^verbatim>\<open>partition(arr, low, high)\<close>; the result is \<^verbatim>\<open>i + 1\<close> with the new state.\<close>

definition quickSort_partition ::
  "('a \<Rightarrow> 'a \<Rightarrow> bool) \<Rightarrow> 'a list \<times> animation list \<Rightarrow> nat \<Rightarrow> nat
   \<Rightarrow> nat \<times> 'a list \<times> animation list" where
  "quickSort_partition shouldPartition' s low high = (case s of (arr, anims) \<Rightarrow>
     let pivot = arr ! high;
         anims = anims @ [anim Mark_pivot [int high]];
         (arr, i1, anims) =
           fold (partition_step shouldPartition' pivot high) [low..<high] (arr, low, anims);
         anims = anims @ [anim Swap [int i1, int high]];
         arr = swap_elems arr i1 high;
         anims = anims @ [anim Final_position [int i1]]
     in (i1, arr, anims))"

lemma partition_step_index:
  "fst (snd (partition_step c pivot high j (arr, i1, anims))) \<le> i1 + 1 \<and>
   i1 \<le> fst (snd (partition_step c pivot high j (arr, i1, anims)))"
  by (simp add: partition_step_def Let_def)

lemma partition_fold_index:
  "fst (snd (fold (partition_step c pivot high) js (arr, i1, anims))) \<le> i1 + length js \<and>
   i1 \<le> fst (snd (fold (partition_step c pivot high) js (arr, i1, anims)))"
proof (induction js arbitrary: arr i1 anims)
  case Nil
  show ?case by simp
next
  case (Cons j js)
  obtain arr' i1' anims' where st: "partition_step c pivot high j (arr, i1, anims) = (arr', i1', anims')"
    by (cases "partition_step c pivot high j (arr, i1, anims)") auto
  from partition_step_index[of c pivot high j arr i1 anims] st
  have "i1' \<le> i1 + 1" "i1 \<le> i1'" by simp_all
  with Cons.IH[of arr' i1' anims'] st show ?case by simp
qed

lemma quickSort_partition_index:
  "low \<le> high \<Longrightarrow>
   low \<le> fst (quickSort_partition c s low high) \<and> fst (quickSort_partition c s low high) \<le> high"
proof -
  assume lh: "low \<le> high"
  obtain arr anims where s: "s = (arr, anims)" by (cases s)
  define anims1 where "anims1 = anims @ [anim Mark_pivot [int high]]"
  obtain arr' i1 anims' where
    f: "fold (partition_step c (arr ! high) high) [low..<high] (arr, low, anims1) = (arr', i1, anims')"
    by (cases "fold (partition_step c (arr ! high) high) [low..<high] (arr, low, anims1)") auto
  from partition_fold_index[of c "arr ! high" high "[low..<high]" arr low anims1] f lh
  have "low \<le> i1" "i1 \<le> high" by simp_all
  with f show ?thesis
    by (simp add: quickSort_partition_def s Let_def anims1_def)
qed

text \<open>
  The recursive \<^verbatim>\<open>sort(arr, low, high)\<close> of quickSort.  \<^verbatim>\<open>pi - 1\<close> is \<open>-1\<close> in the
  source when the pivot lands at position \<open>0\<close>; the only use of that bound is the test
  \<^verbatim>\<open>low < high\<close>, which fails for \<open>-1\<close> and for the natural \<open>0 - 1 = 0\<close> alike
  (\<open>low\<close> is \<open>0\<close> then).
\<close>

function quickSort_sort ::
  "('a \<Rightarrow> 'a \<Rightarrow> bool) \<Rightarrow> 'a list \<times> animation list \<Rightarrow> nat \<Rightarrow> nat \<Rightarrow> 'a list \<times> animation list" where
  "quickSort_sort shouldPartition' s low high =
    (if low < high then
       (case quickSort_partition shouldPartition' s low high of (pi, s1) \<Rightarrow>
          quickSort_sort shouldPartition'
            (quickSort_sort shouldPartition' s1 low (pi - 1)) (pi + 1) high)
     else s)"
  by pat_completeness auto
termination
proof (relation "measure (\<lambda>(c, s, low, high). high - low)")
  show "wf (measure (\<lambda>(c, s, low, high). high - low))" by simp
next
  fix c :: "'a \<Rightarrow> 'a \<Rightarrow> bool" and s :: "'a list \<times> animation list" and low high :: nat
    and pi s1
  assume "low < high" and "(pi, s1) = quickSort_partition c s low high"
  with quickSort_partition_index[of low high c s]
  show "((c, s1, low, pi - 1), (c, s, low, high)) \<in> measure (\<lambda>(c, s, low, high). high - low)"
    by (cases "quickSort_partition c s low high") auto
next
  fix c :: "'a \<Rightarrow> 'a \<Rightarrow> bool" and s :: "'a list \<times> animation list" and low high :: nat
    and pi s1
  assume "low < high" and "(pi, s1) = quickSort_partition c s low high"
  with quickSort_partition_index[of low high c s]
  show "((c, quickSort_sort c s1 low (pi - 1), pi + 1, high), (c, s, low, high))
        \<in> measure (\<lambda>(c, s, low, high). high - low)"
    by (cases "quickSort_partition c s low high") auto
qed

definition quickSort :: "('a \<Rightarrow> int) \<Rightarrow> 'a list \<Rightarrow> sortOrder \<Rightarrow> 'a sort_result" where
  "quickSort val array sortOrder =
    (let (arr, anims) =
           quickSort_sort (shouldPartition val sortOrder) (array, []) 0 (length array - 1);
         anims = mark_all_final (length arr) anims
     in \<lparr>animations = anims @ [anim Final_position [int (length arr) - 1]],
         finalArray = arr\<rparr>)"

subsection \<open>mergeSort\<close>

text \<open>
  The first loop of \<^verbatim>\<open>merge\<close>, \<^verbatim>\<open>while (i <= m && j <= r)\<close>.  It reads the array and
  appends to \<^verbatim>\<open>temp\<close> (\<open>k\<close> is always the length of \<^verbatim>\<open>temp\<close>).  The comparator is the
  closure \<^verbatim>\<open>shouldSwap\<close> of \<^verbatim>\<open>merge\<close>, called as \<^verbatim>\<open>shouldSwap(arr[j], arr[i])\<close>.
\<close>

function merge_loop ::
  "('a \<Rightarrow> 'a \<Rightarrow> bool) \<Rightarrow> 'a list \<Rightarrow> nat \<Rightarrow> nat \<Rightarrow> nat \<times> nat \<times> 'a list \<times> animation list
   \<Rightarrow> nat \<times> nat \<times> 'a list \<times> animation list" where
  "merge_loop shouldSwap' arr m r (i, j, temp, anims) =
    (if i \<le> m \<and> j \<le> r then
       (if shouldSwap' (arr ! j) (arr ! i)
        then merge_loop shouldSwap' arr m r
               (i + 1, j, temp @ [arr ! i],
                anims @ [anim Compare [int i, int j],
                         anim Reset_compare [int (i + 1) - 1, int j - 1]])
        else merge_loop shouldSwap' arr m r
               (i, j + 1, temp @ [arr ! j],
                anims @ [anim Compare [int i, int j],
                         anim Reset_compare [int i - 1, int (j + 1) - 1]]))
     else (i, j, temp, anims))"
  by pat_completeness auto
termination
  by (relation "measure (\<lambda>(c, arr, m, r, i, j, temp, anims). (m + 1 - i) + (r + 1 - j))") auto

text \<open>
  \<^verbatim>\<open>merge(arr, l, m, r)\<close>: the first loop, the two loops that copy what is left of
  either run, and the loop that writes \<^verbatim>\<open>temp\<close> back, pushing an \<^verbatim>\<open>overwrite\<close> step
  whose \<^verbatim>\<open>indices\<close> are the position and the number written.
\<close>

definition mergeSort_merge ::
  "('a \<Rightarrow> 'a \<Rightarrow> bool) \<Rightarrow> ('a \<Rightarrow> int) \<Rightarrow> 'a list \<times> animation list \<Rightarrow> nat \<Rightarrow> nat \<Rightarrow> nat
   \<Rightarrow> 'a list \<times> animation list" where
  "mergeSort_merge shouldSwap' val s l m r = (case s of (arr, anims) \<Rightarrow>
     let (i, j, temp, anims) = merge_loop shouldSwap' arr m r (l, m + 1, [], anims);
         temp = temp @ map (\<lambda>i. arr ! i) [i..<m + 1];
         temp = temp @ map (\<lambda>j. arr ! j) [j..<r + 1]
     in fold (\<lambda>i (arr, anims).
               (arr[i := temp ! (i - l)],
                anims @ [anim Overwrite [int i, val (temp ! (i - l))]]))
          [l..<r + 1] (arr, anims))"

text \<open>The recursive \<^verbatim>\<open>sort(arr, l, r)\<close> of mergeSort, \<open>m = floor(l + (r - l) / 2)\<close>.\<close>

function mergeSort_sort ::
  "('a \<Rightarrow> 'a \<Rightarrow> bool) \<Rightarrow> ('a \<Rightarrow> int) \<Rightarrow> 'a list \<times> animation list \<Rightarrow> nat \<Rightarrow> nat
   \<Rightarrow> 'a list \<times> animation list" where
  "mergeSort_sort shouldSwap' val s l r =
    (if l < r then
       (let m = l + (r - l) div 2
        in mergeSort_merge shouldSwap' val
             (mergeSort_sort shouldSwap' val (mergeSort_sort shouldSwap' val s l m) (m + 1) r)
             l m r)
     else s)"
  by pat_completeness auto
termination
  by (relation "measure (\<lambda>(c, val, s, l, r). r - l)") auto

definition mergeSort :: "('a \<Rightarrow> int) \<Rightarrow> 'a list \<Rightarrow> sortOrder \<Rightarrow> 'a sort_result" where
  "mergeSort val array sortOrder =
    (let (arr, anims) =
           mergeSort_sort (shouldSwap val sortOrder) val (array, []) 0 (length array - 1);
         anims = mark_all_final (length arr) anims
     in \<lparr>animations = anims @ [anim Final_position [int (length arr) - 1]],
         finalArray = arr\<rparr>)"

subsection \<open>heapSort\<close>

definition shouldHeapify :: "('a \<Rightarrow> int) \<Rightarrow> sortOrder \<Rightarrow> 'a \<Rightarrow> 'a \<Rightarrow> bool" where
  "shouldHeapify val sortOrder a b = (if sortOrder = Ascending then val a > val b else val a < val b)"

function heapify ::
  "('a \<Rightarrow> 'a \<Rightarrow> bool) \<Rightarrow> nat \<Rightarrow> nat \<Rightarrow> 'a list \<times> animation list \<Rightarrow> 'a list \<times> animation list" where
  "heapify shouldHeapify' n i (arr, anims) =
    (let l = 2 * i + 1;
         r = 2 * i + 2;
         largest = i;
         largest = (if l < n \<and> shouldHeapify' (arr ! l) (arr ! largest) then l else largest);
         largest = (if r < n \<and> shouldHeapify' (arr ! r) (arr ! largest) then r else largest)
     in if largest \<noteq> i
        then heapify shouldHeapify' n largest
               (swap_elems arr i largest,
                anims @ [anim Compare [int i, int largest], anim Swap [int i, int largest]])
        else (arr, anims))"
  by pat_completeness auto
termination
  by (relation "measure (\<lambda>(c, n, i, s). n - i)") (auto split: if_splits)

text \<open>The body of \<^verbatim>\<open>for (let i = arr.length - 1; i > 0; i--)\<close>.\<close>

definition heap_extract ::
  "('a \<Rightarrow> 'a \<Rightarrow> bool) \<Rightarrow> nat \<Rightarrow> 'a list \<times> animation list \<Rightarrow> 'a list \<times> animation list" where
  "heap_extract shouldHeapify' i = (\<lambda>(arr, anims).
     heapify shouldHeapify' i 0
       (swap_elems arr 0 i, anims @ [anim Swap [0, int i], anim Final_position [int i]]))"

text \<open>
  \<^verbatim>\<open>for (let i = Math.floor(arr.length / 2) - 1; i >= 0; i--)\<close> runs over the positions
  below \<open>length arr div 2\<close> downwards, the second loop over \<open>length arr - 1, ..., 1\<close>.
\<close>

definition heapSort :: "('a \<Rightarrow> int) \<Rightarrow> 'a list \<Rightarrow> sortOrder \<Rightarrow> 'a sort_result" where
  "heapSort val array sortOrder =
    (let s = fold (\<lambda>i s. heapify (shouldHeapify val sortOrder) (length array) i s)
               (rev [0..<length array div 2]) (array, []);
         (arr, anims) = fold (heap_extract (shouldHeapify val sortOrder)) (rev [1..<length array]) s
     in \<lparr>animations = anims @ [anim Final_position [0]], finalArray = arr\<rparr>)"

section \<open>SearchingVisualizer.js\<close>

text \<open>
  \<^verbatim>\<open>arr[i]\<close> for a position that may lie outside the array: JavaScript gives
  \<^verbatim>\<open>undefined\<close> there, here \<open>None\<close>.  \<^verbatim>\<open>undefined === target\<close> and
  \<^verbatim>\<open>undefined < target\<close> are both false.
\<close>

definition arr_get :: "int list \<Rightarrow> int \<Rightarrow> int option" where
  "arr_get arr i = (if 0 \<le> i \<and> i < int (length arr) then Some (arr ! nat i) else None)"

subsection \<open>binarySearch\<close>

text \<open>
  The \<^verbatim>\<open>while (low <= high)\<close> loop of \<^verbatim>\<open>binarySearch\<close>; \<open>low\<close> and \<open>high\<close> are integers
  (\<open>high\<close> becomes \<open>-1\<close> when the search leaves the array on the left), and
  \<^verbatim>\<open>Math.floor((low + high) / 2)\<close> is \<open>div\<close>.  The loop returns the whole trace.
\<close>

function binarySearch_loop ::
  "int list \<Rightarrow> int \<Rightarrow> int \<Rightarrow> int \<Rightarrow> animation list \<Rightarrow> animation list" where
  "binarySearch_loop arr target low high anims =
    (if low \<le> high then
       let mid = (low + high) div 2;
           anims1 = anims @ [anim Compare_range [low, high], anim Compare [mid]]
       in (case arr_get arr mid of
             Some x \<Rightarrow>
               if x = target then anims1 @ [anim Found [mid]]
               else if x < target then
                 binarySearch_loop arr target (mid + 1) high
                   (anims1 @ [anim Adjust_range [mid, mid + 1]])
               else
                 binarySearch_loop arr target low (mid - 1)
                   (anims1 @ [anim Adjust_range [mid, mid - 1]])
           | None \<Rightarrow>
               binarySearch_loop arr target low (mid - 1)
                 (anims1 @ [anim Adjust_range [mid, mid - 1]]))
     else anims @ [anim Not_found []])"
  by pat_completeness auto
termination
  by (relation "measure (\<lambda>(arr, target, low, high, anims). nat (high - low + 1))") auto

definition binarySearch :: "int list \<Rightarrow> int \<Rightarrow> animation list" where
  "binarySearch array target = binarySearch_loop array target 0 (int (length array) - 1) []"

subsection \<open>Counting steps\<close>

text \<open>
  \<open>clog2 n\<close> is the least \<open>k\<close> with \<open>n \<le> 2 ^ k\<close>, that is \<open>\<lceil>log\<^sub>2 n\<rceil>\<close> for \<open>n \<ge> 1\<close>;
  \<open>count_type t\<close> counts the steps of kind \<open>t\<close> in a trace.
\<close>

fun clog2 :: "nat \<Rightarrow> nat" where
  "clog2 n = (if n \<le> 1 then 0 else Suc (clog2 ((n + 1) div 2)))"

definition count_type :: "anim_type \<Rightarrow> animation list \<Rightarrow> nat" where
  "count_type t as = length (filter (\<lambda>a. atype a = t) as)"

section \<open>The graph visualizer\<close>

text \<open>
  Node labels are strings.  A JavaScript \<^verbatim>\<open>Map\<close> keeps its keys in insertion order and
  \<^verbatim>\<open>set\<close> on a key it has replaces the value in place; it is an association list with
  \<open>map_of\<close> for \<^verbatim>\<open>get\<close> and \<open>AList.update\<close> for \<^verbatim>\<open>set\<close>.  The weight map is keyed by
  the string \<^verbatim>\<open>`${u}-${v}`\<close>.
\<close>

type_synonym adjacency = "(string \<times> string list) list"
type_synonym edge_weights = "(string \<times> int) list"

definition edge_key :: "string \<Rightarrow> string \<Rightarrow> string" where
  "edge_key u v = u @ ''-'' @ v"

subsection \<open>Numbers\<close>

text \<open>
  Distances are JavaScript numbers: an integer, \<^verbatim>\<open>Infinity\<close>, or \<^verbatim>\<open>NaN\<close> where
  \<^verbatim>\<open>undefined\<close> (a key the map does not have) enters an addition.  Every comparison with
  \<^verbatim>\<open>NaN\<close> or \<^verbatim>\<open>undefined\<close> is false.
\<close>

datatype num = Num int | Infinity | NaN

fun num_add :: "num \<Rightarrow> num \<Rightarrow> num" where
  "num_add (Num a) (Num b) = Num (a + b)"
| "num_add NaN b = NaN"
| "num_add a NaN = NaN"
| "num_add a b = Infinity"

fun num_less :: "num \<Rightarrow> num \<Rightarrow> bool" where
  "num_less (Num a) (Num b) = (a < b)"
| "num_less (Num a) Infinity = True"
| "num_less a b = False"

text \<open>\<^verbatim>\<open>m.get(k)\<close> read as a number, and \<^verbatim>\<open>edgeWeights.get(`${u}-${v}`)\<close>.\<close>

definition num_get :: "(string \<times> num) list \<Rightarrow> string \<Rightarrow> num" where
  "num_get m k = (case map_of m k of None \<Rightarrow> NaN | Some d \<Rightarrow> d)"

definition weight_get :: "edge_weights \<Rightarrow> string \<Rightarrow> string \<Rightarrow> num" where
  "weight_get edgeWeights u v =
    (case map_of edgeWeights (edge_key u v) of None \<Rightarrow> NaN | Some w \<Rightarrow> Num w)"

subsection \<open>buildAdjacencyList\<close>

definition add_edge :: "string \<times> string \<Rightarrow> adjacency \<Rightarrow> adjacency" where
  "add_edge = (\<lambda>(u, v) newAdjList.
     let newAdjList = (if map_of newAdjList u = None then AList.update u [] newAdjList
                       else newAdjList);
         newAdjList = (if map_of newAdjList v = None then AList.update v [] newAdjList
                       else newAdjList);
         newAdjList = AList.map_entry u (\<lambda>ns. ns @ [v]) newAdjList
     in AList.map_entry v (\<lambda>ns. ns @ [u]) newAdjList)"

definition add_weight :: "string \<times> string \<times> int \<Rightarrow> edge_weights \<Rightarrow> edge_weights" where
  "add_weight = (\<lambda>(u, v, w) newEdgeWeights.
     AList.update (edge_key v u) w (AList.update (edge_key u v) w newEdgeWeights))"

definition buildAdjacencyList ::
  "(string \<times> string) list \<Rightarrow> (string \<times> string \<times> int) list \<Rightarrow> adjacency \<times> edge_weights" where
  "buildAdjacencyList edges weights = (fold add_edge edges [], fold add_weight weights [])"

subsection \<open>The priority queue\<close>

text \<open>
  Modelled from the spec: the priority queue is the package \<^verbatim>\<open>priorityqueuejs\<close>, which
  is not among the sources.  Section 4.1 of the specification gives its contract:
  \<^verbatim>\<open>insert\<close>, \<^verbatim>\<open>extractBest\<close> (removes and returns the entry with the best priority)
  and \<^verbatim>\<open>isEmpty\<close>, with duplicate keys allowed.  Both pathfinders order it by least
  priority.  The queue is the list of its entries in insertion order; among entries
  of the same least priority the one inserted first is extracted.
\<close>

type_synonym pqueue = "(string \<times> num) list"

definition enq :: "string \<times> num \<Rightarrow> pqueue \<Rightarrow> pqueue" where
  "enq e pq = pq @ [e]"

definition pq_best :: "pqueue \<Rightarrow> string \<times> num" where
  "pq_best pq = fold (\<lambda>e best. if num_less (snd e) (snd best) then e else best) (tl pq) (hd pq)"

definition deq :: "pqueue \<Rightarrow> (string \<times> num) \<times> pqueue" where
  "deq pq = (pq_best pq, remove1 (pq_best pq) pq)"

subsection \<open>Steps of the graph traces\<close>

text \<open>
  The steps \<^verbatim>\<open>{type, node, path, newDistance}\<close> of the graph generators, one constructor
  for each \<^verbatim>\<open>type\<close>; the narrative text is left out.
\<close>

datatype graph_animation =
  Visit_start string | Visit_node string | Queue_node string | Stack_node string
  | Start_dijkstra string | Visit_dijkstra string | Update_distance string num
  | Start_a_star string | Found_path string | Visit_a_star string | Update_a_star string
  | Final_path "string list" | Complete

text \<open>
  \<^verbatim>\<open>TypeError\<close> is what JavaScript throws at \<^verbatim>\<open>for (const v of adjList.get(u))\<close> when
  \<open>u\<close> is not a key of the adjacency map.  \<^verbatim>\<open>PathNotFound\<close> is the error of the
  specification's taxonomy.
\<close>

datatype error = TypeError | PathNotFound

record path_result =
  r_animations :: "graph_animation list"
  r_path :: "string list"
  r_distances :: "(string \<times> num) list"

subsection \<open>Path reconstruction\<close>

text \<open>
  \<^verbatim>\<open>while (current) { path.unshift(current); current = previous.get(current); }\<close>.
  \<^verbatim>\<open>undefined\<close> and the empty string are the falsy values \<open>current\<close> can take.  The walk
  does not end on a cyclic predecessor map: the result is \<open>None\<close> then.
\<close>

partial_function (option) reconstruct_path ::
  "(string \<times> string) list \<Rightarrow> string option \<Rightarrow> string list \<Rightarrow> string list option" where
  "reconstruct_path previous current path =
    (case current of
       None \<Rightarrow> Some path
     | Some c \<Rightarrow>
         if c = [] then Some path
         else reconstruct_path previous (map_of previous c) (c # path))"

declare reconstruct_path.simps [code]

subsection \<open>dijkstra\<close>

text \<open>
  The state of the main loop is \<open>(anims, distances, previous, pq)\<close>.  The body of
  \<^verbatim>\<open>for (const v of adjList.get(u))\<close>:
\<close>

type_synonym dijkstra_state =
  "graph_animation list \<times> (string \<times> num) list \<times> (string \<times> string) list \<times> pqueue"

definition dijkstra_relax :: "edge_weights \<Rightarrow> string \<Rightarrow> string \<Rightarrow> dijkstra_state \<Rightarrow> dijkstra_state" where
  "dijkstra_relax edgeWeights u v = (\<lambda>(anims, distances, previous, pq).
     let weight = weight_get edgeWeights u v;
         newDistance = num_add (num_get distances u) weight
     in if num_less newDistance (num_get distances v)
        then (anims @ [Update_distance v newDistance],
              AList.update v newDistance distances,
              AList.update v u previous,
              enq (v, newDistance) pq)
        else (anims, distances, previous, pq))"

text \<open>
  The loop \<^verbatim>\<open>while (!pq.isEmpty())\<close>.  It can run forever (negative weights), so it is a
  partial function: \<open>None\<close> is a run that does not return, \<open>Some (Inl e)\<close> one that throws.
\<close>

partial_function (option) dijkstra_loop ::
  "adjacency \<Rightarrow> edge_weights \<Rightarrow> string \<Rightarrow> dijkstra_state \<Rightarrow> (error + dijkstra_state) option" where
  "dijkstra_loop adjList edgeWeights endNode s =
    (case s of (anims, distances, previous, pq) \<Rightarrow>
       if pq = [] then Some (Inr s)
       else
         (case deq pq of ((u, distance), pq) \<Rightarrow>
            if num_less (num_get distances u) distance
            then dijkstra_loop adjList edgeWeights endNode (anims, distances, previous, pq)
            else if u = endNode
            then Some (Inr (anims @ [Visit_dijkstra u], distances, previous, pq))
            else
              (case map_of adjList u of
                 None \<Rightarrow> Some (Inl TypeError)
               | Some ns \<Rightarrow>
                   dijkstra_loop adjList edgeWeights endNode
                     (fold (dijkstra_relax edgeWeights u) ns
                        (anims @ [Visit_dijkstra u], distances, previous, pq)))))"

declare dijkstra_loop.simps [code]

definition dijkstra ::
  "adjacency \<Rightarrow> edge_weights \<Rightarrow> string \<Rightarrow> string \<Rightarrow> (error + path_result) option" where
  "dijkstra adjList edgeWeights startNode endNode =
    (let distances = fold (\<lambda>node distances. AList.update node Infinity distances) (map fst adjList) [];
         distances = AList.update startNode (Num 0) distances;
         pq = enq (startNode, Num 0) [];
         anims = [Start_dijkstra startNode]
     in case dijkstra_loop adjList edgeWeights endNode (anims, distances, [], pq) of
          None \<Rightarrow> None
        | Some (Inl e) \<Rightarrow> Some (Inl e)
        | Some (Inr (anims, distances, previous, pq)) \<Rightarrow>
            (case reconstruct_path previous (Some endNode) [] of
               None \<Rightarrow> None
             | Some path \<Rightarrow>
                 Some (Inr \<lparr>r_animations = anims @ [Final_path path, Complete],
                            r_path = path, r_distances = distances\<rparr>)))"

subsection \<open>aStar\<close>

text \<open>
  The heuristic is a parameter of \<^verbatim>\<open>aStar\<close>; it returns a number, an integer here.
  The state of the main loop is \<open>(anims, gScores, fScores, previous, pq)\<close>.
\<close>

type_synonym aStar_state =
  "graph_animation list \<times> (string \<times> num) list \<times> (string \<times> num) list
   \<times> (string \<times> string) list \<times> pqueue"

definition aStar_relax ::
  "edge_weights \<Rightarrow> string \<Rightarrow> (string \<Rightarrow> string \<Rightarrow> int) \<Rightarrow> string \<Rightarrow> string \<Rightarrow> aStar_state
   \<Rightarrow> aStar_state" where
  "aStar_relax edgeWeights endNode heuristic u v = (\<lambda>(anims, gScores, fScores, previous, pq).
     let weight = weight_get edgeWeights u v;
         tentativeGScore = num_add (num_get gScores u) weight
     in if num_less tentativeGScore (num_get gScores v)
        then
          (let previous = AList.update v u previous;
               gScores = AList.update v tentativeGScore gScores;
               fScores = AList.update v (num_add tentativeGScore (Num (heuristic v endNode))) fScores;
               pq = enq (v, num_get fScores v) pq
           in (anims @ [Update_a_star v], gScores, fScores, previous, pq))
        else (anims, gScores, fScores, previous, pq))"

partial_function (option) aStar_loop ::
  "adjacency \<Rightarrow> edge_weights \<Rightarrow> string \<Rightarrow> (string \<Rightarrow> string \<Rightarrow> int) \<Rightarrow> aStar_state
   \<Rightarrow> (error + path_result) option" where
  "aStar_loop adjList edgeWeights endNode heuristic s =
    (case s of (anims, gScores, fScores, previous, pq) \<Rightarrow>
       if pq = []
       then Some (Inr \<lparr>r_animations = anims @ [Complete], r_path = [], r_distances = gScores\<rparr>)
       else
         (case deq pq of ((u, fScore), pq) \<Rightarrow>
            if u = endNode
            then
              (case reconstruct_path previous (Some endNode) [] of
                 None \<Rightarrow> None
               | Some path \<Rightarrow>
                   Some (Inr \<lparr>r_animations = anims @ [Found_path u, Final_path path, Complete],
                              r_path = path, r_distances = gScores\<rparr>))
            else
              (case map_of adjList u of
                 None \<Rightarrow> Some (Inl TypeError)
               | Some ns \<Rightarrow>
                   aStar_loop adjList edgeWeights endNode heuristic
                     (fold (aStar_relax edgeWeights endNode heuristic u) ns
                        (anims @ [Visit_a_star u], gScores, fScores, previous, pq)))))"

declare aStar_loop.simps [code]

definition aStar ::
  "adjacency \<Rightarrow> edge_weights \<Rightarrow> string \<Rightarrow> string \<Rightarrow> (string \<Rightarrow> string \<Rightarrow> int)
   \<Rightarrow> (error + path_result) option" where
  "aStar adjList edgeWeights startNode endNode heuristic =
    (let gScores = fold (\<lambda>node gScores. AList.update node Infinity gScores) (map fst adjList) [];
         fScores = fold (\<lambda>node fScores. AList.update node Infinity fScores) (map fst adjList) [];
         gScores = AList.update startNode (Num 0) gScores;
         fScores = AList.update startNode (Num (heuristic startNode endNode)) fScores;
         pq = enq (startNode, num_get fScores startNode) [];
         anims = [Start_a_star startNode]
     in aStar_loop adjList edgeWeights endNode heuristic (anims, gScores, fScores, [], pq))"

text \<open>
  The heuristic the caller passes is the distance between the drawn positions of the two
  nodes, and \<open>0\<close> when a position is missing; \<open>flat_heuristic\<close> is that heuristic for
  nodes without positions.
\<close>

definition flat_heuristic :: "string \<Rightarrow> string \<Rightarrow> int" where
  "flat_heuristic u v = 0"

subsection \<open>The scheduler of the graph visualizer\<close>

text \<open>
  The part of \<^verbatim>\<open>runAnimationStep\<close> that handles a \<^verbatim>\<open>final_path\<close> step adds up the weights
  along the path; the sum starts at \<open>0\<close> and a pair without a weight turns it into
  \<^verbatim>\<open>NaN\<close>.
\<close>

definition path_weight :: "edge_weights \<Rightarrow> string list \<Rightarrow> num" where
  "path_weight edgeWeights finalPath =
     fold (\<lambda>i weight. num_add weight (weight_get edgeWeights (finalPath ! i) (finalPath ! (i + 1))))
       [0..<length finalPath - 1] (Num 0)"

text \<open>
  The state the steps act on.  The three sets are JavaScript \<^verbatim>\<open>Set\<close>s, here lists
  without repetition in insertion order.  The timer is not modelled: \<open>run_steps\<close>
  applies \<^verbatim>\<open>runAnimationStep\<close> once for every tick.
\<close>

record graph_view =
  visitedNodes :: "string list"
  queuedNodes :: "string list"
  traversalPath :: "string list"
  finalPathNodes :: "string list"
  totalWeight :: num
  isTraversing :: bool
  currentAnimationIndex :: nat

definition set_add :: "string \<Rightarrow> string list \<Rightarrow> string list" where
  "set_add x xs = (if x \<in> set xs then xs else xs @ [x])"

definition mark_visited :: "string \<Rightarrow> graph_view \<Rightarrow> graph_view" where
  "mark_visited n g =
     g\<lparr>visitedNodes := set_add n (visitedNodes g), queuedNodes := removeAll n (queuedNodes g)\<rparr>"

definition add_to_path :: "string \<Rightarrow> graph_view \<Rightarrow> graph_view" where
  "add_to_path pathAdd g =
     (if pathAdd \<noteq> [] \<and> pathAdd \<notin> set (traversalPath g)
      then g\<lparr>traversalPath := traversalPath g @ [pathAdd]\<rparr> else g)"

fun apply_step :: "edge_weights \<Rightarrow> graph_animation \<Rightarrow> graph_view \<Rightarrow> graph_view" where
  "apply_step edgeWeights (Visit_start n) g = add_to_path n (mark_visited n g)"
| "apply_step edgeWeights (Visit_node n) g = add_to_path n (mark_visited n g)"
| "apply_step edgeWeights (Start_dijkstra n) g = mark_visited n g"
| "apply_step edgeWeights (Visit_dijkstra n) g = mark_visited n g"
| "apply_step edgeWeights (Visit_a_star n) g = mark_visited n g"
| "apply_step edgeWeights (Queue_node n) g = g\<lparr>queuedNodes := set_add n (queuedNodes g)\<rparr>"
| "apply_step edgeWeights (Stack_node n) g = g\<lparr>queuedNodes := set_add n (queuedNodes g)\<rparr>"
| "apply_step edgeWeights (Update_distance n d) g = g\<lparr>queuedNodes := set_add n (queuedNodes g)\<rparr>"
| "apply_step edgeWeights (Update_a_star n) g = g\<lparr>queuedNodes := set_add n (queuedNodes g)\<rparr>"
| "apply_step edgeWeights (Final_path finalPath) g =
     g\<lparr>finalPathNodes := fold set_add finalPath [],
       totalWeight := path_weight edgeWeights finalPath\<rparr>"
| "apply_step edgeWeights (Start_a_star n) g = g"
| "apply_step edgeWeights (Found_path n) g = g"
| "apply_step edgeWeights Complete g = g"

definition graph_runAnimationStep ::
  "edge_weights \<Rightarrow> graph_animation list \<Rightarrow> graph_view \<Rightarrow> graph_view" where
  "graph_runAnimationStep edgeWeights anims g =
     (if currentAnimationIndex g \<ge> length anims then g\<lparr>isTraversing := False\<rparr>
      else (apply_step edgeWeights (anims ! currentAnimationIndex g) g)
             \<lparr>currentAnimationIndex := currentAnimationIndex g + 1\<rparr>)"

text \<open>
  The view as \<^verbatim>\<open>handleRunAlgorithm\<close> resets it before a run, and the replay of a whole
  trace: one call for every step and the last call that finds the trace exhausted.
\<close>

definition fresh_view :: graph_view where
  "fresh_view = \<lparr>visitedNodes = [], queuedNodes = [], traversalPath = [], finalPathNodes = [],
     totalWeight = Num 0, isTraversing = True, currentAnimationIndex = 0\<rparr>"

definition run_steps :: "edge_weights \<Rightarrow> graph_animation list \<Rightarrow> graph_view" where
  "run_steps edgeWeights anims =
     ((graph_runAnimationStep edgeWeights anims) ^^ (length anims + 1)) fresh_view"

subsection \<open>Reachability and the graphs of the examples\<close>

text \<open>\<open>reachable adjList startNode v\<close>: there is a walk from \<open>startNode\<close> to \<open>v\<close> along the adjacency lists.\<close>

inductive reachable :: "adjacency \<Rightarrow> string \<Rightarrow> string \<Rightarrow> bool"
  for adjList :: adjacency and startNode :: string where
  reach_start: "reachable adjList startNode startNode"
| reach_step: "reachable adjList startNode u \<Longrightarrow> map_of adjList u = Some ns \<Longrightarrow> v \<in> set ns
    \<Longrightarrow> reachable adjList startNode v"

text \<open>The graph \<^verbatim>\<open>A-B, A-C, B-D, C-E\<close> with the weights \<^verbatim>\<open>A-B:5, A-C:2, B-D:4, C-E:8\<close>.\<close>

definition example_edges :: "(string \<times> string) list" where
  "example_edges = [(''A'', ''B''), (''A'', ''C''), (''B'', ''D''), (''C'', ''E'')]"

definition example_weights :: "(string \<times> string \<times> int) list" where
  "example_weights = [(''A'', ''B'', 5), (''A'', ''C'', 2), (''B'', ''D'', 4), (''C'', ''E'', 8)]"

text \<open>The graph \<^verbatim>\<open>A-B, C-D\<close>: two components, \<open>D\<close> cannot be reached from \<open>A\<close>.\<close>

definition split_edges :: "(string \<times> string) list" where
  "split_edges = [(''A'', ''B''), (''C'', ''D'')]"

definition split_weights :: "(string \<times> string \<times> int) list" where
  "split_weights = [(''A'', ''B'', 5), (''C'', ''D'', 2)]"

text \<open>
  The graph \<^verbatim>\<open>A-B, A-C, C-B, B-D\<close> with \<^verbatim>\<open>A-B:10, A-C:1, C-B:1, B-D:100\<close>: \<open>B\<close> is
  first queued with priority \<open>10\<close> and then again, through \<open>C\<close>, with priority \<open>2\<close>.
\<close>

definition detour_edges :: "(string \<times> string) list" where
  "detour_edges = [(''A'', ''B''), (''A'', ''C''), (''C'', ''B''), (''B'', ''D'')]"

definition detour_weights :: "(string \<times> string \<times> int) list" where
  "detour_weights = [(''A'', ''B'', 10), (''A'', ''C'', 1), (''C'', ''B'', 1), (''B'', ''D'', 100)]"

section \<open>Reading the build input\<close>

text \<open>
  Both builders read their text field with \<^verbatim>\<open>split(',').map(Number)\<close>.
  \<^verbatim>\<open>split(',')\<close> cuts at every comma and keeps empty pieces: the empty string gives one
  empty token.
\<close>

fun split_comma :: "string \<Rightarrow> string list" where
  "split_comma [] = [[]]"
| "split_comma (c # cs) =
     (if c = CHR '','' then [] # split_comma cs
      else (case split_comma cs of [] \<Rightarrow> [[c]] | t # ts \<Rightarrow> (c # t) # ts))"

text \<open>
  A JavaScript number that is not \<^verbatim>\<open>NaN\<close> is a finite double, \<^verbatim>\<open>Infinity\<close> or
  \<^verbatim>\<open>-Infinity\<close>; a finite double is the rational number it stands for.  \<open>-0\<close> is not
  told apart from \<open>0\<close>: \<^verbatim>\<open>===\<close>, \<^verbatim>\<open><\<close> and the text drawn for a node do not tell them
  apart either.  Where a number is read, \<^verbatim>\<open>NaN\<close> is \<open>None\<close>.
\<close>

datatype jsnum = Fin rat | PosInf | NegInf

fun negate :: "jsnum \<Rightarrow> jsnum" where
  "negate (Fin q) = Fin (- q)"
| "negate PosInf = NegInf"
| "negate NegInf = PosInf"

text \<open>\<^verbatim>\<open>a < b\<close> on numbers that are not \<^verbatim>\<open>NaN\<close>.\<close>

fun js_less :: "jsnum \<Rightarrow> jsnum \<Rightarrow> bool" where
  "js_less (Fin a) (Fin b) = (a < b)"
| "js_less (Fin a) PosInf = True"
| "js_less NegInf (Fin b) = True"
| "js_less NegInf PosInf = True"
| "js_less a b = False"

text \<open>
  \<open>to_double num den\<close> is the double nearest to the quotient \<open>num / den\<close>, as IEEE 754
  rounds: \<open>e\<close> is the exponent of the power of two at or below the quotient, and not
  below \<open>-1022\<close>, where the subnormal numbers start; \<open>n\<close> is the quotient in units of
  \<open>2 ^ (e - 52)\<close> rounded to the nearest integer, to the even one when two are equally
  near; from \<open>2 ^ 1024\<close> on the result is \<^verbatim>\<open>Infinity\<close>.  \<open>log2_floor n\<close> is the greatest
  \<open>k\<close> with \<open>2 ^ k \<le> n\<close>, and \<open>clog2 n\<close> the least \<open>k\<close> with \<open>n \<le> 2 ^ k\<close>.
\<close>

definition pow_int :: "rat \<Rightarrow> int \<Rightarrow> rat" where
  "pow_int b e = (if 0 \<le> e then b ^ nat e else 1 / b ^ nat (- e))"

fun log2_floor :: "nat \<Rightarrow> nat" where
  "log2_floor n = (if n < 2 then 0 else Suc (log2_floor (n div 2)))"

definition to_double :: "nat \<Rightarrow> nat \<Rightarrow> jsnum" where
  "to_double num den =
    (if num = 0 then Fin 0
     else
       (let e = max (if den \<le> num then int (log2_floor (num div den))
                     else - int (clog2 ((den + num - 1) div num))) (- 1022);
            sn = (if e \<le> 52 then num * 2 ^ nat (52 - e) else num);
            sd = (if e \<le> 52 then den else den * 2 ^ nat (e - 52));
            f = sn div sd;
            r = sn mod sd;
            n = (if 2 * r < sd then f else if sd < 2 * r then f + 1
                 else if even f then f else f + 1);
            m = of_nat n * pow_int 2 (e - 52)
        in if pow_int 2 1024 \<le> m then PosInf else Fin m))"

text \<open>
  \<^verbatim>\<open>Number(s)\<close> for a string, after ECMAScript's \<^verbatim>\<open>StringToNumber\<close>.  White space around
  the text is dropped and empty text is \<open>0\<close>.  A literal \<^verbatim>\<open>0x...\<close>, \<^verbatim>\<open>0o...\<close> or \<^verbatim>\<open>0b...\<close>
  (either case of the letter, no sign) is the integer its digits write.  A decimal
  literal is an optional sign before \<^verbatim>\<open>Infinity\<close> or before digits with an optional
  fraction and an optional exponent: \<^verbatim>\<open>12\<close>, \<^verbatim>\<open>1.5\<close>, \<^verbatim>\<open>5.\<close>, \<^verbatim>\<open>.5\<close>, \<^verbatim>\<open>1e3\<close>, \<^verbatim>\<open>2.5E-1\<close>.
  The value of a literal is rounded to the nearest double (as the engines round a
  literal of any length).  All other text is \<^verbatim>\<open>NaN\<close>.  Characters are 8-bit in this
  model; the white space characters are the seven below 256.
\<close>

definition is_space :: "char \<Rightarrow> bool" where
  "is_space c =
     (c \<in> set [CHR 0x09, CHR 0x0A, CHR 0x0B, CHR 0x0C, CHR 0x0D, CHR '' '', CHR 0xA0])"

definition trim :: "string \<Rightarrow> string" where
  "trim s = rev (dropWhile is_space (rev (dropWhile is_space s)))"

definition digit_of :: "char \<Rightarrow> nat option" where
  "digit_of c =
     map_of [(CHR ''0'', 0), (CHR ''1'', 1), (CHR ''2'', 2), (CHR ''3'', 3), (CHR ''4'', 4),
             (CHR ''5'', 5), (CHR ''6'', 6), (CHR ''7'', 7), (CHR ''8'', 8), (CHR ''9'', 9),
             (CHR ''a'', 10), (CHR ''b'', 11), (CHR ''c'', 12), (CHR ''d'', 13),
             (CHR ''e'', 14), (CHR ''f'', 15),
             (CHR ''A'', 10), (CHR ''B'', 11), (CHR ''C'', 12), (CHR ''D'', 13),
             (CHR ''E'', 14), (CHR ''F'', 15)] c"

text \<open>
  \<open>digits_of b acc s\<close> reads \<open>s\<close> as digits of the base \<open>b\<close> after the digits that gave
  \<open>acc\<close>; \<open>digits b s\<close> wants one digit at least.
\<close>

fun digits_of :: "nat \<Rightarrow> nat \<Rightarrow> string \<Rightarrow> nat option" where
  "digits_of b acc [] = Some acc"
| "digits_of b acc (c # cs) =
     (case digit_of c of
        None \<Rightarrow> None
      | Some d \<Rightarrow> if d < b then digits_of b (b * acc + d) cs else None)"

definition digits :: "nat \<Rightarrow> string \<Rightarrow> nat option" where
  "digits b s = (if s = [] then None else digits_of b 0 s)"

text \<open>The exponent after \<^verbatim>\<open>e\<close>: digits with an optional sign.\<close>

definition signed_integer :: "string \<Rightarrow> int option" where
  "signed_integer s =
    (case s of
       [] \<Rightarrow> None
     | c # cs \<Rightarrow>
         if c = CHR ''-'' then map_option (\<lambda>n. - int n) (digits 10 cs)
         else if c = CHR ''+'' then map_option int (digits 10 cs)
         else map_option int (digits 10 s))"

definition is_exp :: "char \<Rightarrow> bool" where
  "is_exp c = (c = CHR ''e'' \<or> c = CHR ''E'')"

definition is_dot :: "char \<Rightarrow> bool" where
  "is_dot c = (c = CHR ''.'')"

text \<open>
  An unsigned decimal literal other than \<^verbatim>\<open>Infinity\<close>: the text before the first \<^verbatim>\<open>e\<close>
  is the digits before and after the first dot, one digit at least between them, and
  the text after the \<^verbatim>\<open>e\<close> is the exponent.  The result \<open>(n, x)\<close> stands for
  \<open>n * 10 ^ x\<close>.
\<close>

definition unsigned_decimal :: "string \<Rightarrow> (nat \<times> int) option" where
  "unsigned_decimal s =
    (let mantissa = takeWhile (\<lambda>c. \<not> is_exp c) s;
         exponentPart = dropWhile (\<lambda>c. \<not> is_exp c) s;
         intDigits = takeWhile (\<lambda>c. \<not> is_dot c) mantissa;
         fracDigits = drop 1 (dropWhile (\<lambda>c. \<not> is_dot c) mantissa);
         exponent = (if exponentPart = [] then Some 0 else signed_integer (tl exponentPart))
     in if intDigits = [] \<and> fracDigits = [] then None
        else
          (case (digits_of 10 0 (intDigits @ fracDigits), exponent) of
             (Some n, Some x) \<Rightarrow> Some (n, x - int (length fracDigits))
           | _ \<Rightarrow> None))"

definition decimal_value :: "nat \<times> int \<Rightarrow> jsnum" where
  "decimal_value = (\<lambda>(n, x).
     if 0 \<le> x then to_double (n * 10 ^ nat x) 1 else to_double n (10 ^ nat (- x)))"

definition unsigned_literal :: "string \<Rightarrow> jsnum option" where
  "unsigned_literal s =
     (if s = ''Infinity'' then Some PosInf else map_option decimal_value (unsigned_decimal s))"

definition radix_of :: "string \<Rightarrow> (nat \<times> string) option" where
  "radix_of s =
    (case s of
       c # x # ds \<Rightarrow>
         if c \<noteq> CHR ''0'' then None
         else if x = CHR ''x'' \<or> x = CHR ''X'' then Some (16, ds)
         else if x = CHR ''o'' \<or> x = CHR ''O'' then Some (8, ds)
         else if x = CHR ''b'' \<or> x = CHR ''B'' then Some (2, ds)
         else None
     | _ \<Rightarrow> None)"

definition Number :: "string \<Rightarrow> jsnum option" where
  "Number s =
    (let t = trim s
     in case t of
          [] \<Rightarrow> Some (Fin 0)
        | c # cs \<Rightarrow>
            (case radix_of t of
               Some (b, ds) \<Rightarrow> map_option (\<lambda>n. to_double n 1) (digits b ds)
             | None \<Rightarrow>
                 if c = CHR ''-'' then map_option negate (unsigned_literal cs)
                 else if c = CHR ''+'' then unsigned_literal cs
                 else unsigned_literal t))"

text \<open>\<^verbatim>\<open>values.some(isNaN)\<close>\<close>

definition some_isNaN :: "jsnum option list \<Rightarrow> bool" where
  "some_isNaN vs = list_ex (\<lambda>v. v = None) vs"

section \<open>LinkedListVisualizer.js\<close>

text \<open>
  The nodes live in a store, a list of records; a reference to a node is its position
  in the store and \<^verbatim>\<open>null\<close> is \<open>None\<close>.  \<^verbatim>\<open>new SinglyNode(value)\<close> and
  \<^verbatim>\<open>new DoublyNode(value)\<close> append a record to the store.  A \<^verbatim>\<open>SinglyNode\<close> has no
  field \<^verbatim>\<open>prev\<close>; its \<open>nprev\<close> is never written and stays \<open>None\<close>.
\<close>

record node =
  nval :: jsnum
  nnext :: "nat option"
  nprev :: "nat option"

type_synonym store = "node list"

datatype listType = SinglyLinkedList | DoublyLinkedList

datatype list_animation =
  L_highlight jsnum | L_found jsnum | L_not_found | L_delete_head jsnum | L_delete jsnum

text \<open>
  \<^verbatim>\<open>while (current.next !== null) current = current.next\<close>.  The walk does not end on a
  cyclic list; the result is \<open>None\<close> then (and for a reference outside the store, which
  JavaScript cannot hold).
\<close>

partial_function (option) last_node :: "store \<Rightarrow> nat \<Rightarrow> nat option" where
  "last_node h current =
    (if current < length h
     then (case nnext (h ! current) of
             None \<Rightarrow> Some current
           | Some n \<Rightarrow> last_node h n)
     else None)"

declare last_node.simps [code]

text \<open>\<^verbatim>\<open>insert(head, value, listType)\<close>; the result is the new store and the head returned.\<close>

definition list_insert ::
  "store \<Rightarrow> nat option \<Rightarrow> jsnum \<Rightarrow> listType \<Rightarrow> (store \<times> nat option) option" where
  "list_insert h head v listType =
    (let newNode = length h;
         h = h @ [\<lparr>nval = v, nnext = None, nprev = None\<rparr>]
     in case head of
          None \<Rightarrow> Some (h, Some newNode)
        | Some first \<Rightarrow>
            (case last_node h first of
               None \<Rightarrow> None
             | Some current \<Rightarrow>
                 if listType = DoublyLinkedList
                 then Some (h[current := (h ! current)\<lparr>nnext := Some newNode\<rparr>,
                              newNode := (h ! newNode)\<lparr>nprev := Some current\<rparr>], head)
                 else Some (h[current := (h ! current)\<lparr>nnext := Some newNode\<rparr>], head)))"

text \<open>
  The loop of \<^verbatim>\<open>deleteNode\<close>,
  \<^verbatim>\<open>while (current.next !== null && current.next.value !== value)\<close>.
\<close>

partial_function (option) find_before ::
  "store \<Rightarrow> jsnum \<Rightarrow> nat \<Rightarrow> list_animation list \<Rightarrow> (nat \<times> list_animation list) option" where
  "find_before h v current anims =
    (if current < length h
     then (case nnext (h ! current) of
             None \<Rightarrow> Some (current, anims)
           | Some n \<Rightarrow>
               if nval (h ! n) \<noteq> v
               then find_before h v n (anims @ [L_highlight (nval (h ! current))])
               else Some (current, anims))
     else None)"

declare find_before.simps [code]

text \<open>
  \<^verbatim>\<open>deleteNode(head, value, animations, listType)\<close>; the result is the new store, the
  head returned and the steps pushed.
\<close>

definition deleteNode ::
  "store \<Rightarrow> nat option \<Rightarrow> jsnum \<Rightarrow> list_animation list \<Rightarrow> listType
   \<Rightarrow> (store \<times> nat option \<times> list_animation list) option" where
  "deleteNode h head v anims listType =
    (case head of
       None \<Rightarrow> Some (h, head, anims @ [L_not_found])
     | Some first \<Rightarrow>
         if nval (h ! first) = v
         then
           (let anims = anims @ [L_delete_head v];
                newHead = nnext (h ! first);
                h = (case newHead of
                       Some n \<Rightarrow>
                         if listType = DoublyLinkedList then h[n := (h ! n)\<lparr>nprev := None\<rparr>] else h
                     | None \<Rightarrow> h)
            in Some (h, newHead, anims))
         else
           (case find_before h v first anims of
              None \<Rightarrow> None
            | Some (current, anims) \<Rightarrow>
                (case nnext (h ! current) of
                   Some n \<Rightarrow>
                     if nval (h ! n) = v
                     then
                       (let anims = anims @ [L_delete v];
                            h = (case nnext (h ! n) of
                                   Some nn \<Rightarrow>
                                     if listType = DoublyLinkedList
                                     then h[nn := (h ! nn)\<lparr>nprev := Some current\<rparr>] else h
                                 | None \<Rightarrow> h);
                            h = h[current := (h ! current)\<lparr>nnext := nnext (h ! n)\<rparr>]
                        in Some (h, head, anims))
                     else Some (h, head, anims @ [L_not_found])
                 | None \<Rightarrow> Some (h, head, anims @ [L_not_found]))))"

text \<open>\<^verbatim>\<open>values.forEach(value => { newHead = insert(newHead, value, listType); })\<close>\<close>

fun insert_all :: "listType \<Rightarrow> jsnum list \<Rightarrow> store \<times> nat option \<Rightarrow> (store \<times> nat option) option" where
  "insert_all listType [] s = Some s"
| "insert_all listType (v # vs) s =
     (case list_insert (fst s) (snd s) v listType of
        None \<Rightarrow> None
      | Some s' \<Rightarrow> insert_all listType vs s')"

text \<open>
  The state of the component that \<^verbatim>\<open>buildList\<close> reads and writes.  A build starts from
  \<^verbatim>\<open>newHead = null\<close>: the nodes of the list before it cannot be reached from the new
  head, so the new list is built in an empty store.
\<close>

record list_view =
  listValues :: string
  listKind :: listType
  isAnimating :: bool
  explanation :: string
  head :: "nat option"
  nodes :: store

definition buildList :: "list_view \<Rightarrow> list_view option" where
  "buildList s =
    (if isAnimating s then Some s
     else
       (let s = s\<lparr>head := None, nodes := [], explanation := ''Building a new Linked List...''\<rparr>;
            vals = map Number (split_comma (listValues s))
        in if some_isNaN vals
           then Some (s\<lparr>explanation := ''Invalid input. Please use comma-separated numbers.''\<rparr>)
           else
             (case insert_all (listKind s) (map the vals) ([], None) of
                None \<Rightarrow> None
              | Some (h, newHead) \<Rightarrow>
                  Some (s\<lparr>head := newHead, nodes := h,
                          explanation := ''Linked List built successfully.''\<rparr>))))"

section \<open>The tree visualizer\<close>

text \<open>
  A node owns its two subtrees and nothing else refers to them, so the tree is a
  datatype; \<^verbatim>\<open>insert\<close> walks down from the root and hangs the new node where it finds
  \<^verbatim>\<open>null\<close>, to the left when the value is smaller and to the right otherwise.
\<close>

datatype bst = Null | Node bst jsnum bst

fun tree_insert :: "bst \<Rightarrow> jsnum \<Rightarrow> bst" where
  "tree_insert Null v = Node Null v Null"
| "tree_insert (Node l x r) v =
     (if js_less v x then Node (tree_insert l v) x r else Node l x (tree_insert r v))"

fun inOrder :: "bst \<Rightarrow> jsnum list" where
  "inOrder Null = []"
| "inOrder (Node l x r) = inOrder l @ [x] @ inOrder r"

record tree_view =
  treeValues :: string
  t_isAnimating :: bool
  t_explanation :: string
  tree :: bst

definition buildTree :: "tree_view \<Rightarrow> tree_view" where
  "buildTree s =
    (if t_isAnimating s then s
     else
       (let s = s\<lparr>tree := Null, t_explanation := ''Building a new tree...''\<rparr>;
            vals = map Number (split_comma (treeValues s))
        in if some_isNaN vals
           then s\<lparr>t_explanation := ''Invalid input. Please use comma-separated numbers.''\<rparr>
           else s\<lparr>tree := fold (\<lambda>v newTree. tree_insert newTree v) (map the vals) Null,
                  t_explanation := ''Tree built successfully. Now you can search!''\<rparr>))"

subsection \<open>Reading a list off the store\<close>

text \<open>
  \<open>chain listType vs\<close> is the store that holds the values \<open>vs\<close> as one list in
  allocation order: node \<open>i\<close> points forward to node \<open>i + 1\<close> and, in a doubly linked
  list, back to node \<open>i - 1\<close>.  \<open>walk k h p\<close> reads at most \<open>k\<close> values forward from the
  reference \<open>p\<close>.
\<close>

definition chain :: "listType \<Rightarrow> jsnum list \<Rightarrow> store" where
  "chain listType vs =
     map (\<lambda>i. \<lparr>nval = vs ! i,
               nnext = (if Suc i < length vs then Some (Suc i) else None),
               nprev = (if listType = DoublyLinkedList \<and> 0 < i then Some (i - 1) else None)\<rparr>)
       [0..<length vs]"

definition chain_head :: "jsnum list \<Rightarrow> nat option" where
  "chain_head vs = (if vs = [] then None else Some 0)"

fun walk :: "nat \<Rightarrow> store \<Rightarrow> nat option \<Rightarrow> jsnum list" where
  "walk 0 h p = []"
| "walk (Suc k) h None = []"
| "walk (Suc k) h (Some a) = nval (h ! a) # walk k h (nnext (h ! a))"

text \<open>The value a token stands for once the input has passed the test, and the empty view.\<close>

definition token_value :: "string \<Rightarrow> jsnum" where
  "token_value t = the (Number t)"

definition empty_list_view :: "listType \<Rightarrow> string \<Rightarrow> list_view" where
  "empty_list_view listType input =
     \<lparr>listValues = input, listKind = listType, isAnimating = False, explanation = [],
      head = None, nodes = []\<rparr>"

definition empty_tree_view :: "string \<Rightarrow> tree_view" where
  "empty_tree_view input =
     \<lparr>treeValues = input, t_isAnimating = False, t_explanation = [], tree = Null\<rparr>"

section \<open>The component of the sorting visualizer\<close>

text \<open>
  The state of the React component that \<^verbatim>\<open>handleSort\<close> and \<^verbatim>\<open>runAnimationStep\<close> read and
  write: the state variables and the refs.  \<open>s_alerts\<close> collects the messages shown
  with \<^verbatim>\<open>alert\<close>.  \<open>s_explanation\<close> is the line under the bars; the narrative of a
  single step is not modelled, so a step leaves it as it is.  \<open>s_timeoutIdRef\<close> is the
  delay of the pending timer, if there is one.  The colours of the bars belong to the
  page and are not part of the state.
\<close>

datatype algorithm = BubbleSort | SelectionSort | InsertionSort | QuickSort | MergeSort | HeapSort

record sort_view =
  s_array :: "int list"
  s_explanation :: string
  s_isSorting :: bool
  s_speedSliderValue :: int
  s_selectedAlgorithm :: algorithm
  s_sortOrder :: sortOrder
  s_animationsRef :: "animation list"
  s_currentAnimationIndexRef :: nat
  s_localArrayRef :: "int list"
  s_timeoutIdRef :: "int option"
  s_alerts :: "string list"

definition MIN_DELAY :: int where "MIN_DELAY = 10"
definition MAX_DELAY :: int where "MAX_DELAY = 3000"

text \<open>
  What a step does to \<^verbatim>\<open>localArrayRef.current\<close>: a \<^verbatim>\<open>swap\<close> exchanges two positions, a
  \<^verbatim>\<open>shift\<close> takes the bar at \<^verbatim>\<open>from\<close> out and puts it in at \<^verbatim>\<open>to\<close> (the two
  \<^verbatim>\<open>splice\<close> calls), an \<^verbatim>\<open>overwrite\<close> stores the number the step carries.  The steps of
  the generators name positions of the array; for other positions JavaScript would
  grow the array, which is not modelled.
\<close>

definition moves_bars :: "animation \<Rightarrow> bool" where
  "moves_bars a = (atype a = Swap \<or> atype a = Shift \<or> atype a = Overwrite)"

definition apply_sort_step :: "animation \<Rightarrow> int list \<Rightarrow> int list" where
  "apply_sort_step a localArray =
    (if atype a = Swap
     then swap_elems localArray (nat (indices a ! 0)) (nat (indices a ! 1))
     else if atype a = Shift
     then (let from = nat (indices a ! 0);
               to = nat (indices a ! 1);
               barToMove = localArray ! from;
               newArray = take from localArray @ drop (Suc from) localArray
           in take to newArray @ [barToMove] @ drop to newArray)
     else if atype a = Overwrite
     then localArray[nat (indices a ! 0) := indices a ! 1]
     else localArray)"

definition runAnimationStep :: "sort_view \<Rightarrow> sort_view" where
  "runAnimationStep s =
    (if s_currentAnimationIndexRef s \<ge> length (s_animationsRef s)
     then s\<lparr>s_isSorting := False, s_explanation := ''Array is fully sorted!''\<rparr>
     else
       (let a = s_animationsRef s ! s_currentAnimationIndexRef s;
            s = (if moves_bars a
                 then s\<lparr>s_localArrayRef := apply_sort_step a (s_localArrayRef s),
                        s_array := apply_sort_step a (s_localArrayRef s)\<rparr>
                 else s)
        in s\<lparr>s_currentAnimationIndexRef := s_currentAnimationIndexRef s + 1,
              s_timeoutIdRef := Some (MAX_DELAY - s_speedSliderValue s + MIN_DELAY)\<rparr>))"

definition run_generator :: "algorithm \<Rightarrow> int list \<Rightarrow> sortOrder \<Rightarrow> int sort_result" where
  "run_generator a xs ord =
    (case a of
       BubbleSort \<Rightarrow> bubbleSort (\<lambda>x. x) xs ord
     | SelectionSort \<Rightarrow> selectionSort (\<lambda>x. x) xs ord
     | InsertionSort \<Rightarrow> insertionSort (\<lambda>x. x) xs ord
     | QuickSort \<Rightarrow> quickSort (\<lambda>x. x) xs ord
     | MergeSort \<Rightarrow> mergeSort (\<lambda>x. x) xs ord
     | HeapSort \<Rightarrow> heapSort (\<lambda>x. x) xs ord)"

definition handleSort :: "sort_view \<Rightarrow> sort_view" where
  "handleSort s =
    (if length (s_array s) = 0
     then s\<lparr>s_explanation := ''Please load an array first!''\<rparr>
     else if isArraySorted (s_array s) (s_sortOrder s)
     then s\<lparr>s_alerts := s_alerts s @ [''Array is already sorted!'']\<rparr>
     else
       (let s = s\<lparr>s_isSorting := True, s_currentAnimationIndexRef := 0,
                  s_localArrayRef := s_array s\<rparr>;
            result = run_generator (s_selectedAlgorithm s) (s_array s) (s_sortOrder s);
            s = s\<lparr>s_animationsRef := animations result\<rparr>
        in runAnimationStep s))"

text \<open>The canonical order of a list of numbers under an order flag.\<close>

definition sorted_under :: "sortOrder \<Rightarrow> int list \<Rightarrow> bool" where
  "sorted_under ord xs = (if ord = Ascending then sorted xs else sorted (rev xs))"

definition canonical_sort :: "sortOrder \<Rightarrow> int list \<Rightarrow> int list" where
  "canonical_sort ord xs = (if ord = Ascending then sort xs else rev (sort xs))"

text \<open>The state after an array has been loaded, before the first run.\<close>

definition loaded_view :: "int list \<Rightarrow> algorithm \<Rightarrow> sortOrder \<Rightarrow> sort_view" where
  "loaded_view xs a ord =
     \<lparr>s_array = xs, s_explanation = [],
      s_isSorting = False, s_speedSliderValue = 500, s_selectedAlgorithm = a, s_sortOrder = ord,
      s_animationsRef = [], s_currentAnimationIndexRef = 0, s_localArrayRef = [],
      s_timeoutIdRef = None, s_alerts = []\<rparr>"


section \<open>Reading a trace\<close>

text \<open>
  \<open>touches a i\<close>: the step \<open>a\<close> is a comparison or a swap that names position \<open>i\<close>.
  \<open>finalized_respected tr\<close>: no step of \<open>tr\<close> touches a position that an earlier
  \<^verbatim>\<open>final_position\<close> step of \<open>tr\<close> has named.
\<close>

definition touches :: "animation \<Rightarrow> int \<Rightarrow> bool" where
  "touches a i = ((atype a = Compare \<or> atype a = Swap) \<and> i \<in> set (indices a))"

fun finalized_respected :: "animation list \<Rightarrow> bool" where
  "finalized_respected [] = True"
| "finalized_respected (a # as) =
     ((atype a = Final_position \<longrightarrow> (\<forall>i\<in>set (indices a). \<forall>b\<in>set as. \<not> touches b i))
      \<and> finalized_respected as)"

text \<open>
  \<open>pass_steps k E\<close>: the steps \<open>E\<close> of one pass are no \<^verbatim>\<open>final_position\<close> steps and name
  positions up to \<open>k\<close> only.  \<open>finals_from b tr\<close>: the \<^verbatim>\<open>final_position\<close> steps of \<open>tr\<close>
  name positions from \<open>b\<close> upwards only.
\<close>

definition pass_steps :: "nat \<Rightarrow> animation list \<Rightarrow> bool" where
  "pass_steps k E = (\<forall>e\<in>set E. atype e \<noteq> Final_position \<and> (\<forall>x\<in>set (indices e). x \<le> int k))"

definition finals_from :: "int \<Rightarrow> animation list \<Rightarrow> bool" where
  "finals_from b tr = (\<forall>a\<in>set tr. atype a = Final_position \<longrightarrow> (\<forall>i\<in>set (indices a). b \<le> i))"


section \<open>Comparators and keys\<close>

text \<open>
  The comparator closures of the generators compare the numbers of two elements, in
  the direction the order flag gives.  \<open>gt_by key c\<close>: \<open>c a b\<close> holds exactly when \<open>a\<close> is
  after \<open>b\<close> in the order of the keys; \<open>le_by key c\<close>: \<open>c p e\<close> holds exactly when \<open>e\<close> is
  not after \<open>p\<close>.  The key of an element is its number for the ascending flag and the
  negated number for the descending flag.
\<close>

definition gt_by :: "('a \<Rightarrow> int) \<Rightarrow> ('a \<Rightarrow> 'a \<Rightarrow> bool) \<Rightarrow> bool" where
  "gt_by key c = (\<forall>a b. c a b = (key b < key a))"

definition le_by :: "('a \<Rightarrow> int) \<Rightarrow> ('a \<Rightarrow> 'a \<Rightarrow> bool) \<Rightarrow> bool" where
  "le_by key c = (\<forall>p e. c p e = (key e \<le> key p))"

definition order_key :: "('a \<Rightarrow> int) \<Rightarrow> sortOrder \<Rightarrow> 'a \<Rightarrow> int" where
  "order_key val ord x = (if ord = Ascending then val x else - val x)"

text \<open>
  \<open>sorted_range key arr low high\<close>: the positions \<open>low, ..., high\<close> of \<open>arr\<close> are in
  the order of the keys.  \<open>same_outside arr arr' low high\<close>: \<open>arr'\<close> is a permutation of
  \<open>arr\<close> that agrees with it at every position outside \<open>low, ..., high\<close>.
\<close>

definition sorted_range :: "('a \<Rightarrow> int) \<Rightarrow> 'a list \<Rightarrow> nat \<Rightarrow> nat \<Rightarrow> bool" where
  "sorted_range key arr low high =
     (\<forall>p q. low \<le> p \<and> p \<le> q \<and> q \<le> high \<longrightarrow> key (arr ! p) \<le> key (arr ! q))"

definition same_outside :: "'a list \<Rightarrow> 'a list \<Rightarrow> nat \<Rightarrow> nat \<Rightarrow> bool" where
  "same_outside arr arr' low high =
     (length arr' = length arr \<and> mset arr' = mset arr \<and>
      (\<forall>p<length arr. p < low \<or> high < p \<longrightarrow> arr' ! p = arr ! p))"


text \<open>
  \<open>mid xs l r\<close> is the run of \<open>xs\<close> at the positions \<open>l, ..., r\<close>.  \<open>merge_lists c xs ys\<close>
  merges two runs the way \<^verbatim>\<open>merge\<close> fills \<^verbatim>\<open>temp\<close>: it takes the head of the left run
  when \<open>c\<close> holds for the head of the right run and the head of the left run, and the
  head of the right run otherwise.
\<close>

definition mid :: "'a list \<Rightarrow> nat \<Rightarrow> nat \<Rightarrow> 'a list" where
  "mid xs l r = drop l (take (Suc r) xs)"

fun merge_lists :: "('a \<Rightarrow> 'a \<Rightarrow> bool) \<Rightarrow> 'a list \<Rightarrow> 'a list \<Rightarrow> 'a list" where
  "merge_lists c [] ys = ys"
| "merge_lists c xs [] = xs"
| "merge_lists c (x # xs) (y # ys) =
     (if c y x then x # merge_lists c xs (y # ys) else y # merge_lists c (x # xs) ys)"

text \<open>
  \<open>heap_node key arr n p\<close>: in the heap held by the first \<open>n\<close> positions of \<open>arr\<close>, no
  child of the position \<open>p\<close> is after \<open>p\<close> in the order of the keys.
\<close>

definition heap_node :: "('a \<Rightarrow> int) \<Rightarrow> 'a list \<Rightarrow> nat \<Rightarrow> nat \<Rightarrow> bool" where
  "heap_node key arr n p =
     ((2 * p + 1 < n \<longrightarrow> key (arr ! (2 * p + 1)) \<le> key (arr ! p)) \<and>
      (2 * p + 2 < n \<longrightarrow> key (arr ! (2 * p + 2)) \<le> key (arr ! p)))"


section \<open>Invariants of the pathfinders\<close>

text \<open>
  \<open>inf_count ds\<close> counts the entries of a score map that are \<^verbatim>\<open>Infinity\<close>, \<open>fin_sum ds\<close>
  adds up its finite entries, and \<open>pot_less ds' ds\<close> orders score maps by the two,
  the count first: every relaxation makes the score map smaller in this order.
\<close>

definition inf_count :: "(string \<times> num) list \<Rightarrow> nat" where
  "inf_count ds = length (filter (\<lambda>e. snd e = Infinity) ds)"

definition fin_sum :: "(string \<times> num) list \<Rightarrow> nat" where
  "fin_sum ds = sum_list (map (\<lambda>e. case snd e of Num d \<Rightarrow> nat d | Infinity \<Rightarrow> 0 | NaN \<Rightarrow> 0) ds)"

definition pot_less :: "(string \<times> num) list \<Rightarrow> (string \<times> num) list \<Rightarrow> bool" where
  "pot_less ds' ds =
     (inf_count ds' < inf_count ds \<or> (inf_count ds' = inf_count ds \<and> fin_sum ds' < fin_sum ds))"

text \<open>
  \<open>scores_ok\<close>: the score map has entries for nodes of the adjacency map only, none of
  them negative or \<^verbatim>\<open>NaN\<close>.  \<open>queue_ok\<close>: every node in the queue can be reached from
  the start node and is a key of the adjacency map.  \<open>previous_ok\<close>: every node with a
  predecessor can be reached from the start node.  \<open>weights_ok\<close>: no weight is negative.
\<close>

definition scores_ok :: "adjacency \<Rightarrow> (string \<times> num) list \<Rightarrow> bool" where
  "scores_ok adjList ds =
     ((\<forall>v. map_of ds v \<noteq> None \<longrightarrow> map_of adjList v \<noteq> None) \<and>
      (\<forall>v d. map_of ds v = Some (Num d) \<longrightarrow> 0 \<le> d) \<and>
      (\<forall>v. map_of ds v \<noteq> Some NaN))"

definition queue_ok :: "adjacency \<Rightarrow> string \<Rightarrow> pqueue \<Rightarrow> bool" where
  "queue_ok adjList startNode pq =
     (\<forall>e \<in> set pq. reachable adjList startNode (fst e) \<and> map_of adjList (fst e) \<noteq> None)"

definition previous_ok :: "adjacency \<Rightarrow> string \<Rightarrow> (string \<times> string) list \<Rightarrow> bool" where
  "previous_ok adjList startNode previous =
     (\<forall>v. map_of previous v \<noteq> None \<longrightarrow> reachable adjList startNode v)"

definition weights_ok :: "edge_weights \<Rightarrow> bool" where
  "weights_ok edgeWeights = (\<forall>k w. map_of edgeWeights k = Some w \<longrightarrow> 0 \<le> w)"

text \<open>
  The invariant of the loop of \<^verbatim>\<open>dijkstra\<close>, and what the relaxation of the neighbours
  of one node does to a state: the score map gets smaller, or the score map and the
  queue stay as they are.  The same for \<^verbatim>\<open>aStar\<close>, with \<open>gScores\<close> as the score map.
\<close>

definition dijkstra_inv :: "adjacency \<Rightarrow> string \<Rightarrow> dijkstra_state \<Rightarrow> bool" where
  "dijkstra_inv adjList startNode s = (case s of (anims, distances, previous, pq) \<Rightarrow>
     scores_ok adjList distances \<and> queue_ok adjList startNode pq \<and>
     previous_ok adjList startNode previous)"

definition dijkstra_progress :: "dijkstra_state \<Rightarrow> dijkstra_state \<Rightarrow> bool" where
  "dijkstra_progress s' s = (case s' of (anims', distances', previous', pq') \<Rightarrow>
     case s of (anims, distances, previous, pq) \<Rightarrow>
       pot_less distances' distances \<or> (distances' = distances \<and> pq' = pq))"

definition aStar_inv :: "adjacency \<Rightarrow> string \<Rightarrow> aStar_state \<Rightarrow> bool" where
  "aStar_inv adjList startNode s = (case s of (anims, gScores, fScores, previous, pq) \<Rightarrow>
     scores_ok adjList gScores \<and> queue_ok adjList startNode pq \<and>
     previous_ok adjList startNode previous)"

definition aStar_progress :: "aStar_state \<Rightarrow> aStar_state \<Rightarrow> bool" where
  "aStar_progress s' s = (case s' of (anims', gScores', fScores', previous', pq') \<Rightarrow>
     case s of (anims, gScores, fScores, previous, pq) \<Rightarrow>
       pot_less gScores' gScores \<or> (gScores' = gScores \<and> pq' = pq))"

section \<open>Binary search: the number of steps\<close>

declare binarySearch_loop.simps [simp del]
declare clog2.simps [simp del]

lemma clog2_upper: "n \<le> 2 ^ clog2 n"
proof (induction n rule: clog2.induct)
  case (1 n)
  show ?case
  proof (cases "n \<le> 1")
    case True
    then show ?thesis by (simp add: clog2.simps[of n])
  next
    case False
    with 1 have "(n + 1) div 2 \<le> 2 ^ clog2 ((n + 1) div 2)" by simp
    then have "n \<le> 2 * 2 ^ clog2 ((n + 1) div 2)" by linarith
    with False show ?thesis by (simp add: clog2.simps[of n])
  qed
qed

lemma clog2_least: "n \<le> 2 ^ k \<Longrightarrow> clog2 n \<le> k"
proof (induction n arbitrary: k rule: clog2.induct)
  case (1 n)
  show ?case
  proof (cases "n \<le> 1")
    case True
    then show ?thesis by (simp add: clog2.simps[of n])
  next
    case False
    then obtain k' where k: "k = Suc k'" using 1(2) by (cases k) auto
    with 1(2) have "(n + 1) div 2 \<le> 2 ^ k'" by simp
    with 1(1) False have "clog2 ((n + 1) div 2) \<le> k'" by simp
    with False k show ?thesis by (simp add: clog2.simps[of n])
  qed
qed

text \<open>
  One round of the loop at least halves the range, so a range of fewer than \<open>2 ^ k\<close>
  positions is searched in at most \<open>k\<close> rounds; every round pushes one
  \<^verbatim>\<open>compare_range\<close>, one \<^verbatim>\<open>compare\<close> and at most one \<^verbatim>\<open>adjust_range\<close> step.
\<close>

lemma binarySearch_loop_count:
  "high - low + 1 < 2 ^ k \<Longrightarrow> t \<in> {Compare, Compare_range, Adjust_range} \<Longrightarrow>
   count_type t (binarySearch_loop arr target low high anims) \<le> count_type t anims + k"
proof (induction arr target low high anims arbitrary: k rule: binarySearch_loop.induct)
  case (1 arr target low high anims)
  show ?case
  proof (cases "low \<le> high")
    case False
    with 1(5) show ?thesis
      by (auto simp: binarySearch_loop.simps[of arr target low high] count_type_def anim_def)
  next
    case True
    define mid where "mid = (low + high) div 2"
    define anims1 where
      "anims1 = anims @ [anim Compare_range [low, high], anim Compare [mid]]"
    from True 1(4) obtain k' where k: "k = Suc k'"
      by (cases k) auto
    have hi: "high - (mid + 1) + 1 < 2 ^ k'" using 1(4) k True
      by (auto simp: mid_def)
    have lo: "(mid - 1) - low + 1 < 2 ^ k'" using 1(4) k True
      by (auto simp: mid_def)
    have adj: "count_type t (anims1 @ [anim Adjust_range v]) \<le> count_type t anims + 1" for v
      using 1(5) by (auto simp: count_type_def anims1_def anim_def)
    have fnd: "count_type t (anims1 @ [anim Found v]) \<le> count_type t anims + 1" for v
      using 1(5) by (auto simp: count_type_def anims1_def anim_def)
    note ih = 1(1-3)[OF True mid_def anims1_def]
    show ?thesis
    proof (cases "arr_get arr mid")
      case None
      from ih(1)[OF None lo 1(5)] adj[of "[mid, mid - 1]"] k True None
      show ?thesis
        by (simp add: binarySearch_loop.simps[of arr target low high anims] Let_def
             mid_def[symmetric] anims1_def[symmetric])
    next
      case (Some x)
      from ih(2)[OF Some _ _ hi 1(5)] ih(3)[OF Some _ _ lo 1(5)]
        adj[of "[mid, mid + 1]"] adj[of "[mid, mid - 1]"] fnd[of "[mid]"] k True Some
      show ?thesis
        by (auto simp add: binarySearch_loop.simps[of arr target low high anims] Let_def
             mid_def[symmetric] anims1_def[symmetric])
    qed
  qed
qed

lemma binarySearch_count:
  assumes "t \<in> {Compare, Compare_range, Adjust_range}"
  shows "count_type t (binarySearch array target) \<le> clog2 (length array) + 1"
proof -
  have "(0::nat) < 2 ^ clog2 (length array)"
    by simp
  with clog2_upper[of "length array"] have "length array < 2 * 2 ^ clog2 (length array)"
    by linarith
  then have "int (length array) < int (2 * 2 ^ clog2 (length array))"
    by (simp only: of_nat_less_iff)
  then have "int (length array) - 1 - 0 + 1 < 2 ^ (clog2 (length array) + 1)"
    by simp
  from binarySearch_loop_count[OF this assms, of array target "[]"]
  show ?thesis by (simp add: binarySearch_def count_type_def)
qed

text \<open>
  Claim C5, as amended.  On an ascending array of length \<open>n\<close> the loop runs at most
  \<open>\<lceil>log\<^sub>2 n\<rceil> + 1\<close> times, so the trace holds at most \<open>\<lceil>log\<^sub>2 n\<rceil> + 1\<close> (and so at most
  \<open>\<lceil>log\<^sub>2 n\<rceil> + 2\<close>) midpoint comparisons, as many range announcements and as many
  range-narrowing steps: the bound holds for each kind of step, not for the
  comparison and range steps counted together.
\<close>

theorem binarySearch_steps_per_kind:
  "sorted array \<Longrightarrow>
   count_type Compare (binarySearch array target) \<le> clog2 (length array) + 1 \<and>
   count_type Compare_range (binarySearch array target) \<le> clog2 (length array) + 1 \<and>
   count_type Adjust_range (binarySearch array target) \<le> clog2 (length array) + 1"
  using binarySearch_count[of _ array target] by simp

theorem binarySearch_steps_per_kind_witness:
  "sorted [1, 3, 5 :: int] \<and>
   count_type Compare (binarySearch [1, 3, 5] 4) \<le> clog2 (length [1, 3, 5 :: int]) + 1 \<and>
   count_type Compare_range (binarySearch [1, 3, 5] 4) \<le> clog2 (length [1, 3, 5 :: int]) + 1 \<and>
   count_type Adjust_range (binarySearch [1, 3, 5] 4) \<le> clog2 (length [1, 3, 5 :: int]) + 1"
proof -
  have s: "sorted [1, 3, 5 :: int]" by simp
  from binarySearch_steps_per_kind[OF s, of 4] s show ?thesis by blast
qed

text \<open>
  The claim as stated fails: the search for \<open>3\<close> in \<open>[1, 2]\<close> pushes two range
  announcements and two midpoint comparisons, four comparison and range steps against
  the bound \<open>\<lceil>log\<^sub>2 2\<rceil> + 2 = 3\<close>.
\<close>

theorem binarySearch_steps_counterexample:
  "sorted [1, 2 :: int] \<and>
   \<not> (length (filter (\<lambda>a. atype a = Compare \<or> atype a = Compare_range) (binarySearch [1, 2] 3))
        \<le> clog2 (length [1, 2 :: int]) + 2)"
  by (simp add: binarySearch_def binarySearch_loop.simps arr_get_def anim_def clog2.simps)

section \<open>Pathfinding on the example graphs\<close>

lemmas graph_build_eval = buildAdjacencyList_def add_edge_def add_weight_def edge_key_def

lemmas dijkstra_eval = dijkstra_def dijkstra_loop.simps reconstruct_path.simps dijkstra_relax_def
  deq_def enq_def pq_best_def num_get_def weight_get_def edge_key_def Let_def

lemmas aStar_eval = flat_heuristic_def aStar_def aStar_loop.simps reconstruct_path.simps aStar_relax_def
  deq_def enq_def pq_best_def num_get_def weight_get_def edge_key_def Let_def

lemmas replay_eval = run_steps_def graph_runAnimationStep_def fresh_view_def mark_visited_def
  set_add_def path_weight_def weight_get_def edge_key_def numeral_eq_Suc

lemma example_graph:
  "buildAdjacencyList example_edges example_weights =
    ([(''A'', [''B'', ''C'']), (''B'', [''A'', ''D'']), (''C'', [''A'', ''E'']),
      (''D'', [''B'']), (''E'', [''C''])],
     [(''A-B'', 5), (''B-A'', 5), (''A-C'', 2), (''C-A'', 2), (''B-D'', 4), (''D-B'', 4),
      (''C-E'', 8), (''E-C'', 8)])"
  by (simp add: graph_build_eval example_edges_def example_weights_def)

lemma example_dijkstra:
  "dijkstra (fst (buildAdjacencyList example_edges example_weights))
     (snd (buildAdjacencyList example_edges example_weights)) ''A'' ''D'' =
   Some (Inr \<lparr>r_animations =
          [Start_dijkstra ''A'', Visit_dijkstra ''A'',
           Update_distance ''B'' (Num 5), Update_distance ''C'' (Num 2),
           Visit_dijkstra ''C'', Update_distance ''E'' (Num 10),
           Visit_dijkstra ''B'', Update_distance ''D'' (Num 9),
           Visit_dijkstra ''D'', Final_path [''A'', ''B'', ''D''], Complete],
          r_path = [''A'', ''B'', ''D''],
          r_distances =
            [(''A'', Num 0), (''B'', Num 5), (''C'', Num 2), (''D'', Num 9),
             (''E'', Num 10)]\<rparr>)"
  unfolding example_graph by (simp add: dijkstra_eval)

lemma example_replay:
  "run_steps (snd (buildAdjacencyList example_edges example_weights))
     [Start_dijkstra ''A'', Visit_dijkstra ''A'',
      Update_distance ''B'' (Num 5), Update_distance ''C'' (Num 2),
      Visit_dijkstra ''C'', Update_distance ''E'' (Num 10),
      Visit_dijkstra ''B'', Update_distance ''D'' (Num 9),
      Visit_dijkstra ''D'', Final_path [''A'', ''B'', ''D''], Complete] =
   \<lparr>visitedNodes = [''A'', ''C'', ''B'', ''D''], queuedNodes = [''E''],
    traversalPath = [], finalPathNodes = [''A'', ''B'', ''D''],
    totalWeight = Num 9, isTraversing = False, currentAnimationIndex = 11\<rparr>"
  unfolding example_graph by (simp add: replay_eval)

text \<open>
  Claim C7.  On the graph \<^verbatim>\<open>A-B, A-C, B-D, C-E\<close> with weights \<open>5, 2, 4, 8\<close>, Dijkstra from
  \<open>A\<close> to \<open>D\<close> returns the path \<open>[A, B, D]\<close>, and the replay of its trace leaves the
  total weight \<open>9\<close> in the view.
\<close>

theorem dijkstra_example_path:
  "\<exists>r. dijkstra (fst (buildAdjacencyList example_edges example_weights))
          (snd (buildAdjacencyList example_edges example_weights)) ''A'' ''D'' = Some (Inr r) \<and>
       r_path r = [''A'', ''B'', ''D''] \<and>
       totalWeight (run_steps (snd (buildAdjacencyList example_edges example_weights))
                      (r_animations r)) = Num 9 \<and>
       finalPathNodes (run_steps (snd (buildAdjacencyList example_edges example_weights))
                      (r_animations r)) = [''A'', ''B'', ''D'']"
  by (simp add: example_dijkstra example_replay)

section \<open>Stale queue entries\<close>

text \<open>
  Dijkstra compares the priority of the extracted entry with the distance known for
  its node and goes on to the next entry, with no step pushed and no neighbour
  relaxed, when the entry is worse.
\<close>

lemma dijkstra_discards_stale_entry:
  assumes "pq \<noteq> []" and "deq pq = ((u, distance), pq')"
    and "num_less (num_get distances u) distance"
  shows "dijkstra_loop adjList edgeWeights endNode (anims, distances, previous, pq) =
         dijkstra_loop adjList edgeWeights endNode (anims, distances, previous, pq')"
  using assms by (subst dijkstra_loop.simps) simp

lemma detour_graph:
  "buildAdjacencyList detour_edges detour_weights =
    ([(''A'', [''B'', ''C'']), (''B'', [''A'', ''C'', ''D'']), (''C'', [''A'', ''B'']),
      (''D'', [''B''])],
     [(''A-B'', 10), (''B-A'', 10), (''A-C'', 1), (''C-A'', 1), (''C-B'', 1), (''B-C'', 1),
      (''B-D'', 100), (''D-B'', 100)])"
  by (simp add: graph_build_eval detour_edges_def detour_weights_def)

text \<open>
  Claim C3 at the graph \<^verbatim>\<open>A-B:10, A-C:1, C-B:1, B-D:100\<close>, from \<open>A\<close> to \<open>D\<close>.  The queue
  holds \<open>B\<close> twice, with priorities \<open>10\<close> and \<open>2\<close>.  Dijkstra visits \<open>B\<close> once.  A* has
  no test of the extracted priority: it extracts the entry of priority \<open>10\<close> after the
  one of priority \<open>2\<close> and pushes a second \<^verbatim>\<open>visit_a_star\<close> step for \<open>B\<close>.
\<close>

theorem aStar_visits_stale_entry:
  "map_option (map_sum id r_animations)
     (aStar (fst (buildAdjacencyList detour_edges detour_weights))
        (snd (buildAdjacencyList detour_edges detour_weights)) ''A'' ''D'' flat_heuristic) =
   Some (Inr [Start_a_star ''A'', Visit_a_star ''A'', Update_a_star ''B'',
              Update_a_star ''C'', Visit_a_star ''C'', Update_a_star ''B'',
              Visit_a_star ''B'', Update_a_star ''D'', Visit_a_star ''B'',
              Found_path ''D'', Final_path [''A'', ''C'', ''B'', ''D''], Complete]) \<and>
   map_option (map_sum id r_animations)
     (dijkstra (fst (buildAdjacencyList detour_edges detour_weights))
        (snd (buildAdjacencyList detour_edges detour_weights)) ''A'' ''D'') =
   Some (Inr [Start_dijkstra ''A'', Visit_dijkstra ''A'', Update_distance ''B'' (Num 10),
              Update_distance ''C'' (Num 1), Visit_dijkstra ''C'', Update_distance ''B'' (Num 2),
              Visit_dijkstra ''B'', Update_distance ''D'' (Num 102), Visit_dijkstra ''D'',
              Final_path [''A'', ''C'', ''B'', ''D''], Complete])"
proof -
  have "map_option (map_sum id r_animations)
     (aStar (fst (buildAdjacencyList detour_edges detour_weights))
        (snd (buildAdjacencyList detour_edges detour_weights)) ''A'' ''D'' flat_heuristic) =
   Some (Inr [Start_a_star ''A'', Visit_a_star ''A'', Update_a_star ''B'',
              Update_a_star ''C'', Visit_a_star ''C'', Update_a_star ''B'',
              Visit_a_star ''B'', Update_a_star ''D'', Visit_a_star ''B'',
              Found_path ''D'', Final_path [''A'', ''C'', ''B'', ''D''], Complete])"
    unfolding detour_graph by (simp add: aStar_eval)
  moreover have "map_option (map_sum id r_animations)
     (dijkstra (fst (buildAdjacencyList detour_edges detour_weights))
        (snd (buildAdjacencyList detour_edges detour_weights)) ''A'' ''D'') =
   Some (Inr [Start_dijkstra ''A'', Visit_dijkstra ''A'', Update_distance ''B'' (Num 10),
              Update_distance ''C'' (Num 1), Visit_dijkstra ''C'', Update_distance ''B'' (Num 2),
              Visit_dijkstra ''B'', Update_distance ''D'' (Num 102), Visit_dijkstra ''D'',
              Final_path [''A'', ''C'', ''B'', ''D''], Complete])"
    unfolding detour_graph by (simp add: dijkstra_eval)
  ultimately show ?thesis by blast
qed

section \<open>An end node that cannot be reached\<close>

lemma split_graph:
  "buildAdjacencyList split_edges split_weights =
    ([(''A'', [''B'']), (''B'', [''A'']), (''C'', [''D'']), (''D'', [''C''])],
     [(''A-B'', 5), (''B-A'', 5), (''C-D'', 2), (''D-C'', 2)])"
  by (simp add: graph_build_eval split_edges_def split_weights_def)

lemma split_reachable:
  "reachable (fst (buildAdjacencyList split_edges split_weights)) ''A'' v \<Longrightarrow>
   v = ''A'' \<or> v = ''B''"
  unfolding split_graph by (induction rule: reachable.induct) (auto split: if_splits)

text \<open>
  Claim C2 fails as stated.  In the graph \<^verbatim>\<open>A-B, C-D\<close> the node \<open>D\<close> cannot be reached
  from \<open>A\<close>, and no run raises \<^verbatim>\<open>PathNotFound\<close>: Dijkstra returns the path \<open>[D]\<close> and A*
  returns the empty path.
\<close>

theorem unreachable_end_counterexample:
  "\<not> reachable (fst (buildAdjacencyList split_edges split_weights)) ''A'' ''D'' \<and>
   map_option (map_sum id r_path)
     (dijkstra (fst (buildAdjacencyList split_edges split_weights))
        (snd (buildAdjacencyList split_edges split_weights)) ''A'' ''D'') = Some (Inr [''D'']) \<and>
   map_option (map_sum id r_path)
     (aStar (fst (buildAdjacencyList split_edges split_weights))
        (snd (buildAdjacencyList split_edges split_weights)) ''A'' ''D'' flat_heuristic) = Some (Inr [])"
proof -
  have "\<not> reachable (fst (buildAdjacencyList split_edges split_weights)) ''A'' ''D''"
    using split_reachable[of "''D''"] by auto
  moreover have "map_option (map_sum id r_path)
     (dijkstra (fst (buildAdjacencyList split_edges split_weights))
        (snd (buildAdjacencyList split_edges split_weights)) ''A'' ''D'') = Some (Inr [''D''])"
    unfolding split_graph by (simp add: dijkstra_eval)
  moreover have "map_option (map_sum id r_path)
     (aStar (fst (buildAdjacencyList split_edges split_weights))
        (snd (buildAdjacencyList split_edges split_weights)) ''A'' ''D'' flat_heuristic) = Some (Inr [])"
    unfolding split_graph by (simp add: aStar_eval)
  ultimately show ?thesis by blast
qed


section \<open>Pathfinding to an end node that cannot be reached\<close>


subsection \<open>The queue\<close>

lemma fold_pick_mem: "fold (\<lambda>e best. if P e best then e else best) xs b \<in> insert b (set xs)"
  by (induction xs arbitrary: b) (auto split: if_splits)

lemma pq_best_mem: "pq \<noteq> [] \<Longrightarrow> pq_best pq \<in> set pq"
proof -
  assume "pq \<noteq> []"
  then obtain e es where pq: "pq = e # es" by (cases pq) auto
  show ?thesis
    unfolding pq_best_def pq using fold_pick_mem[of "\<lambda>e best. num_less (snd e) (snd best)" es e]
    by simp
qed

lemma deq_props:
  assumes "pq \<noteq> []" "deq pq = (e, pq')"
  shows "e \<in> set pq" "length pq' < length pq" "set pq' \<subseteq> set pq"
proof -
  from assms(2) have e: "e = pq_best pq" and pq': "pq' = remove1 (pq_best pq) pq"
    by (auto simp add: deq_def)
  show "e \<in> set pq" unfolding e by (rule pq_best_mem[OF assms(1)])
  show "length pq' < length pq"
    unfolding pq' using pq_best_mem[OF assms(1)] assms(1)
    by (simp add: length_remove1)
  show "set pq' \<subseteq> set pq" unfolding pq' by (rule set_remove1_subset)
qed

subsection \<open>Numbers and score maps\<close>

lemma num_less_cases:
  "num_less a b \<Longrightarrow> \<exists>x. a = Num x \<and> (b = Infinity \<or> (\<exists>y. b = Num y \<and> x < y))"
  by (cases a; cases b) simp_all

lemma num_add_Num: "num_add a b = Num x \<Longrightarrow> \<exists>p q. a = Num p \<and> b = Num q \<and> x = p + q"
  by (cases a; cases b) simp_all

lemma num_get_Some: "num_get m k = Num x \<Longrightarrow> map_of m k = Some (Num x)"
  "num_get m k = Infinity \<Longrightarrow> map_of m k = Some Infinity"
  by (simp_all add: num_get_def split: option.splits)

lemma weight_get_Num: "weight_get ew u v = Num q \<Longrightarrow> map_of ew (edge_key u v) = Some q"
  by (simp add: weight_get_def split: option.splits)

lemma inf_count_update_Infinity:
  "map_of ds k = Some Infinity \<Longrightarrow> inf_count (AList.update k (Num x) ds) < inf_count ds"
  by (induction ds) (auto simp: inf_count_def)

lemma inf_count_update_Num:
  "map_of ds k = Some (Num y) \<Longrightarrow> inf_count (AList.update k (Num x) ds) = inf_count ds"
  by (induction ds) (auto simp: inf_count_def)

lemma fin_sum_update_Num:
  "map_of ds k = Some (Num y) \<Longrightarrow> 0 \<le> x \<Longrightarrow> x < y \<Longrightarrow>
   fin_sum (AList.update k (Num x) ds) < fin_sum ds"
  by (induction ds) (auto simp: fin_sum_def)

lemma pot_less_update:
  assumes "map_of ds k = Some Infinity \<or> (\<exists>y. map_of ds k = Some (Num y) \<and> x < y)" "0 \<le> x"
  shows "pot_less (AList.update k (Num x) ds) ds"
  using assms inf_count_update_Infinity inf_count_update_Num fin_sum_update_Num
  unfolding pot_less_def by blast

lemma pot_less_trans: "pot_less a b \<Longrightarrow> pot_less b c \<Longrightarrow> pot_less a c"
  unfolding pot_less_def by linarith

lemma scores_ok_update:
  assumes "scores_ok adjList ds" "map_of ds k \<noteq> None" "0 \<le> x"
  shows "scores_ok adjList (AList.update k (Num x) ds)"
  using assms unfolding scores_ok_def by (auto simp: update_conv')

lemma previous_ok_update:
  assumes "previous_ok adjList startNode previous" "reachable adjList startNode v"
  shows "previous_ok adjList startNode (AList.update v u previous)"
  using assms unfolding previous_ok_def by (auto simp: update_conv')

lemma queue_ok_enq:
  assumes "queue_ok adjList startNode pq" "reachable adjList startNode v" "map_of adjList v \<noteq> None"
  shows "queue_ok adjList startNode (enq (v, d) pq)"
  using assms unfolding queue_ok_def enq_def by auto

text \<open>A relaxation that goes through: the new score is a number that is not negative,
  and the old score of the neighbour is \<^verbatim>\<open>Infinity\<close> or a greater number.\<close>

lemma relax_through:
  assumes w: "weights_ok ew" and ok: "scores_ok adjList ds"
    and lt: "num_less (num_add (num_get ds u) (weight_get ew u v)) (num_get ds v)"
  shows "\<exists>x. num_add (num_get ds u) (weight_get ew u v) = Num x \<and> 0 \<le> x \<and>
             (map_of ds v = Some Infinity \<or> (\<exists>y. map_of ds v = Some (Num y) \<and> x < y))"
proof -
  from num_less_cases[OF lt] obtain x where
    x: "num_add (num_get ds u) (weight_get ew u v) = Num x"
    and b: "num_get ds v = Infinity \<or> (\<exists>y. num_get ds v = Num y \<and> x < y)" by blast
  from num_add_Num[OF x] obtain p q where
    pq: "num_get ds u = Num p" "weight_get ew u v = Num q" "x = p + q" by blast
  from num_get_Some(1)[OF pq(1)] ok have "0 \<le> p" unfolding scores_ok_def by blast
  moreover from weight_get_Num[OF pq(2)] w have "0 \<le> q" unfolding weights_ok_def by blast
  ultimately have "0 \<le> x" using pq(3) by simp
  moreover from b have "map_of ds v = Some Infinity \<or> (\<exists>y. map_of ds v = Some (Num y) \<and> x < y)"
    using num_get_Some by blast
  ultimately show ?thesis using x by blast
qed


subsection \<open>dijkstra with an end node that cannot be reached\<close>

lemma dijkstra_relax_inv:
  assumes w: "weights_ok ew" and inv: "dijkstra_inv adjList startNode s"
    and v: "reachable adjList startNode v"
  shows "dijkstra_inv adjList startNode (dijkstra_relax ew u v s) \<and>
         dijkstra_progress (dijkstra_relax ew u v s) s"
proof -
  obtain anims ds prev pq where s: "s = (anims, ds, prev, pq)" by (cases s)
  from inv have ok: "scores_ok adjList ds" "queue_ok adjList startNode pq"
    "previous_ok adjList startNode prev"
    unfolding s dijkstra_inv_def by simp_all
  define nd where "nd = num_add (num_get ds u) (weight_get ew u v)"
  show ?thesis
  proof (cases "num_less nd (num_get ds v)")
    case False
    then have "dijkstra_relax ew u v s = s"
      by (simp add: s dijkstra_relax_def Let_def nd_def)
    then show ?thesis using inv by (simp add: s dijkstra_progress_def)
  next
    case True
    then have e: "dijkstra_relax ew u v s =
        (anims @ [Update_distance v nd], AList.update v nd ds, AList.update v u prev,
         enq (v, nd) pq)"
      by (simp add: s dijkstra_relax_def Let_def nd_def)
    from relax_through[OF w ok(1) True[unfolded nd_def]] obtain x where
      x: "nd = Num x" "0 \<le> x"
         "map_of ds v = Some Infinity \<or> (\<exists>y. map_of ds v = Some (Num y) \<and> x < y)"
      unfolding nd_def by blast
    from x(3) have dom: "map_of ds v \<noteq> None" by auto
    with ok(1) have key: "map_of adjList v \<noteq> None" unfolding scores_ok_def by blast
    have "scores_ok adjList (AList.update v nd ds)"
      unfolding x(1) by (rule scores_ok_update[OF ok(1) dom x(2)])
    moreover have "queue_ok adjList startNode (enq (v, nd) pq)"
      by (rule queue_ok_enq[OF ok(2) v key])
    moreover have "previous_ok adjList startNode (AList.update v u prev)"
      by (rule previous_ok_update[OF ok(3) v])
    moreover have "pot_less (AList.update v nd ds) ds"
      unfolding x(1) by (rule pot_less_update[OF x(3) x(2)])
    ultimately show ?thesis
      unfolding e by (simp add: s dijkstra_inv_def dijkstra_progress_def)
  qed
qed

lemma dijkstra_progress_refl: "dijkstra_progress s s"
  by (cases s) (simp add: dijkstra_progress_def)

lemma dijkstra_progress_trans:
  "dijkstra_progress s3 s2 \<Longrightarrow> dijkstra_progress s2 s1 \<Longrightarrow> dijkstra_progress s3 s1"
  unfolding dijkstra_progress_def
  by (cases s1; cases s2; cases s3) (auto intro: pot_less_trans)

lemma dijkstra_relax_fold:
  assumes w: "weights_ok ew"
  shows "\<forall>v \<in> set ns. reachable adjList startNode v \<Longrightarrow> dijkstra_inv adjList startNode s \<Longrightarrow>
         dijkstra_inv adjList startNode (fold (dijkstra_relax ew u) ns s) \<and>
         dijkstra_progress (fold (dijkstra_relax ew u) ns s) s"
proof (induction ns arbitrary: s)
  case Nil
  then show ?case by (simp add: dijkstra_progress_refl)
next
  case (Cons v ns)
  from Cons.prems(1) have v: "reachable adjList startNode v"
    and ns: "\<forall>v \<in> set ns. reachable adjList startNode v" by simp_all
  from dijkstra_relax_inv[OF w Cons.prems(2) v, of u]
  have a: "dijkstra_inv adjList startNode (dijkstra_relax ew u v s)"
    and b: "dijkstra_progress (dijkstra_relax ew u v s) s" by blast+
  from Cons.IH[OF ns a]
  have c: "dijkstra_inv adjList startNode (fold (dijkstra_relax ew u) ns (dijkstra_relax ew u v s))"
    and d: "dijkstra_progress (fold (dijkstra_relax ew u) ns (dijkstra_relax ew u v s))
              (dijkstra_relax ew u v s)" by blast+
  from c dijkstra_progress_trans[OF d b] show ?case by simp
qed

text \<open>
  The loop of \<^verbatim>\<open>dijkstra\<close> returns when no weight is negative and the end node cannot
  be reached: it runs until the queue is empty, and no node that has a predecessor
  then is out of reach.
\<close>

lemma dijkstra_loop_unreachable:
  assumes w: "weights_ok ew" and unreach: "\<not> reachable adjList startNode endNode"
    and inv: "dijkstra_inv adjList startNode s"
  shows "\<exists>s'. dijkstra_loop adjList ew endNode s = Some (Inr s') \<and>
              previous_ok adjList startNode (fst (snd (snd s')))"
proof -
  define R :: "(dijkstra_state \<times> dijkstra_state) set" where
    "R = measures [\<lambda>s. inf_count (fst (snd s)), \<lambda>s. fin_sum (fst (snd s)),
                   \<lambda>s. length (snd (snd (snd s)))]"
  have wfR: "wf R" unfolding R_def by (rule wf_measures)
  show ?thesis using inv
  proof (induction s rule: wf_induct_rule[OF wfR])
    case (1 s)
    obtain anims ds prev pq where s: "s = (anims, ds, prev, pq)" by (cases s)
    from 1(2) have ok: "scores_ok adjList ds" "queue_ok adjList startNode pq"
      "previous_ok adjList startNode prev"
      unfolding s dijkstra_inv_def by simp_all
    show ?case
    proof (cases "pq = []")
      case True
      then have "dijkstra_loop adjList ew endNode s = Some (Inr s)"
        by (subst dijkstra_loop.simps) (simp add: s)
      then show ?thesis using ok(3) by (simp add: s)
    next
      case False
      obtain u distance pq1 where dq: "deq pq = ((u, distance), pq1)"
        by (metis prod.exhaust)
      note dp = deq_props[OF False dq]
      from dp(1) ok(2) have ur: "reachable adjList startNode u" and uk: "map_of adjList u \<noteq> None"
        unfolding queue_ok_def by auto
      from ur unreach have ne: "u \<noteq> endNode" by auto
      from uk obtain ns where ns: "map_of adjList u = Some ns" by auto
      have q1: "queue_ok adjList startNode pq1"
        using ok(2) dp(3) unfolding queue_ok_def by blast
      show ?thesis
      proof (cases "num_less (num_get ds u) distance")
        case True
        have e: "dijkstra_loop adjList ew endNode s =
                 dijkstra_loop adjList ew endNode (anims, ds, prev, pq1)"
          using False dq True by (subst dijkstra_loop.simps) (simp add: s)
        have "((anims, ds, prev, pq1), s) \<in> R"
          unfolding R_def s using dp(2) by simp
        moreover have "dijkstra_inv adjList startNode (anims, ds, prev, pq1)"
          using ok(1,3) q1 by (simp add: dijkstra_inv_def)
        ultimately show ?thesis unfolding e by (rule 1(1))
      next
        case stale: False
        define s1 where "s1 = (anims @ [Visit_dijkstra u], ds, prev, pq1)"
        define s2 where "s2 = fold (dijkstra_relax ew u) ns s1"
        have e: "dijkstra_loop adjList ew endNode s = dijkstra_loop adjList ew endNode s2"
          using False dq stale ne ns
          by (subst dijkstra_loop.simps) (simp add: s s1_def s2_def)
        have i1: "dijkstra_inv adjList startNode s1"
          using ok(1,3) q1 by (simp add: dijkstra_inv_def s1_def)
        have nr: "\<forall>v \<in> set ns. reachable adjList startNode v"
          using reach_step[OF ur ns] by blast
        from dijkstra_relax_fold[OF w nr i1, of u]
        have i2: "dijkstra_inv adjList startNode s2" and pr: "dijkstra_progress s2 s1"
          unfolding s2_def by blast+
        obtain anims2 ds2 prev2 pq2 where s2: "s2 = (anims2, ds2, prev2, pq2)" by (cases s2)
        from pr have "pot_less ds2 ds \<or> (ds2 = ds \<and> pq2 = pq1)"
          unfolding s2 s1_def dijkstra_progress_def by simp
        then have "(s2, s) \<in> R"
          unfolding R_def s s2 pot_less_def using dp(2) by auto
        then show ?thesis unfolding e using i2 by (rule 1(1))
      qed
    qed
  qed
qed


lemma map_of_fold_Infinity:
  "map_of (fold (\<lambda>node ds. AList.update node Infinity ds) ks acc) v =
   (if v \<in> set ks then Some Infinity else map_of acc v)"
  by (induction ks arbitrary: acc) (auto simp: update_conv')

lemma scores_ok_init:
  assumes "map_of adjList startNode \<noteq> None"
  shows "scores_ok adjList (AList.update startNode (Num 0)
           (fold (\<lambda>node ds. AList.update node Infinity ds) (map fst adjList) []))"
proof -
  have "map_of adjList v \<noteq> None" if "v \<in> set (map fst adjList)" for v
    using that by (simp add: map_of_eq_None_iff)
  then show ?thesis
    using assms unfolding scores_ok_def
    by (auto simp: update_conv' map_of_fold_Infinity split: if_splits)
qed

lemma queue_ok_init:
  assumes "map_of adjList startNode \<noteq> None"
  shows "queue_ok adjList startNode (enq (startNode, d) [])"
  using assms reach_start[of adjList startNode] unfolding queue_ok_def enq_def by simp

lemma previous_ok_Nil: "previous_ok adjList startNode []"
  by (simp add: previous_ok_def)

lemma reconstruct_path_no_previous:
  assumes "map_of previous endNode = None"
  shows "\<exists>path. reconstruct_path previous (Some endNode) [] = Some path"
  using assms by (simp add: reconstruct_path.simps)

lemma dijkstra_unreachable:
  assumes start: "map_of adjList startNode \<noteq> None" and w: "weights_ok ew"
    and unreach: "\<not> reachable adjList startNode endNode"
  shows "\<exists>r. dijkstra adjList ew startNode endNode = Some (Inr r)"
proof -
  define ds where "ds = AList.update startNode (Num 0)
           (fold (\<lambda>node ds. AList.update node Infinity ds) (map fst adjList) [])"
  define s where "s = ([Start_dijkstra startNode], ds, []::(string \<times> string) list,
                       enq (startNode, Num 0) [])"
  have "dijkstra_inv adjList startNode s"
    unfolding s_def dijkstra_inv_def ds_def
    using scores_ok_init[OF start] queue_ok_init[OF start] previous_ok_Nil by simp
  from dijkstra_loop_unreachable[OF w unreach this]
  obtain anims' ds' prev' pq' where
    l: "dijkstra_loop adjList ew endNode s = Some (Inr (anims', ds', prev', pq'))"
    and p: "previous_ok adjList startNode prev'"
    by fastforce
  from p unreach have "map_of prev' endNode = None" unfolding previous_ok_def by blast
  from reconstruct_path_no_previous[OF this]
  obtain path where "reconstruct_path prev' (Some endNode) [] = Some path" by blast
  then have "dijkstra adjList ew startNode endNode =
        Some (Inr \<lparr>r_animations = anims' @ [Final_path path, Complete],
                   r_path = path, r_distances = ds'\<rparr>)"
    using l by (simp add: dijkstra_def Let_def ds_def[symmetric] s_def[symmetric])
  then show ?thesis by simp
qed

subsection \<open>aStar with an end node that cannot be reached\<close>

lemma aStar_relax_inv:
  assumes w: "weights_ok ew" and inv: "aStar_inv adjList startNode s"
    and v: "reachable adjList startNode v"
  shows "aStar_inv adjList startNode (aStar_relax ew endNode h u v s) \<and>
         aStar_progress (aStar_relax ew endNode h u v s) s"
proof -
  obtain anims gs fs prev pq where s: "s = (anims, gs, fs, prev, pq)" by (cases s)
  from inv have ok: "scores_ok adjList gs" "queue_ok adjList startNode pq"
    "previous_ok adjList startNode prev"
    unfolding s aStar_inv_def by simp_all
  define nd where "nd = num_add (num_get gs u) (weight_get ew u v)"
  show ?thesis
  proof (cases "num_less nd (num_get gs v)")
    case False
    then have "aStar_relax ew endNode h u v s = s"
      by (simp add: s aStar_relax_def Let_def nd_def)
    then show ?thesis using inv by (simp add: s aStar_progress_def)
  next
    case True
    define fs' where "fs' = AList.update v (num_add nd (Num (h v endNode))) fs"
    from True have e: "aStar_relax ew endNode h u v s =
        (anims @ [Update_a_star v], AList.update v nd gs, fs', AList.update v u prev,
         enq (v, num_get fs' v) pq)"
      by (simp add: s aStar_relax_def Let_def nd_def fs'_def)
    from relax_through[OF w ok(1) True[unfolded nd_def]] obtain x where
      x: "nd = Num x" "0 \<le> x"
         "map_of gs v = Some Infinity \<or> (\<exists>y. map_of gs v = Some (Num y) \<and> x < y)"
      unfolding nd_def by blast
    from x(3) have dom: "map_of gs v \<noteq> None" by auto
    with ok(1) have key: "map_of adjList v \<noteq> None" unfolding scores_ok_def by blast
    have "scores_ok adjList (AList.update v nd gs)"
      unfolding x(1) by (rule scores_ok_update[OF ok(1) dom x(2)])
    moreover have "queue_ok adjList startNode (enq (v, num_get fs' v) pq)"
      by (rule queue_ok_enq[OF ok(2) v key])
    moreover have "previous_ok adjList startNode (AList.update v u prev)"
      by (rule previous_ok_update[OF ok(3) v])
    moreover have "pot_less (AList.update v nd gs) gs"
      unfolding x(1) by (rule pot_less_update[OF x(3) x(2)])
    ultimately show ?thesis
      unfolding e by (simp add: s aStar_inv_def aStar_progress_def)
  qed
qed

lemma aStar_progress_refl: "aStar_progress s s"
  by (cases s) (simp add: aStar_progress_def)

lemma aStar_progress_trans:
  "aStar_progress s3 s2 \<Longrightarrow> aStar_progress s2 s1 \<Longrightarrow> aStar_progress s3 s1"
  unfolding aStar_progress_def
  by (cases s1; cases s2; cases s3) (auto intro: pot_less_trans)

lemma aStar_relax_fold:
  assumes w: "weights_ok ew"
  shows "\<forall>v \<in> set ns. reachable adjList startNode v \<Longrightarrow> aStar_inv adjList startNode s \<Longrightarrow>
         aStar_inv adjList startNode (fold (aStar_relax ew endNode h u) ns s) \<and>
         aStar_progress (fold (aStar_relax ew endNode h u) ns s) s"
proof (induction ns arbitrary: s)
  case Nil
  then show ?case by (simp add: aStar_progress_refl)
next
  case (Cons v ns)
  from Cons.prems(1) have v: "reachable adjList startNode v"
    and ns: "\<forall>v \<in> set ns. reachable adjList startNode v" by simp_all
  from aStar_relax_inv[OF w Cons.prems(2) v, of endNode h u]
  have a: "aStar_inv adjList startNode (aStar_relax ew endNode h u v s)"
    and b: "aStar_progress (aStar_relax ew endNode h u v s) s" by blast+
  from Cons.IH[OF ns a]
  have c: "aStar_inv adjList startNode
             (fold (aStar_relax ew endNode h u) ns (aStar_relax ew endNode h u v s))"
    and d: "aStar_progress (fold (aStar_relax ew endNode h u) ns (aStar_relax ew endNode h u v s))
              (aStar_relax ew endNode h u v s)" by blast+
  from c aStar_progress_trans[OF d b] show ?case by simp
qed

text \<open>
  The loop of \<^verbatim>\<open>aStar\<close> returns when no weight is negative and the end node cannot be
  reached: it runs until the queue is empty and returns the empty path.
\<close>

lemma aStar_loop_unreachable:
  assumes w: "weights_ok ew" and unreach: "\<not> reachable adjList startNode endNode"
    and inv: "aStar_inv adjList startNode s"
  shows "\<exists>r. aStar_loop adjList ew endNode h s = Some (Inr r) \<and> r_path r = []"
proof -
  define R :: "(aStar_state \<times> aStar_state) set" where
    "R = measures [\<lambda>s. inf_count (fst (snd s)), \<lambda>s. fin_sum (fst (snd s)),
                   \<lambda>s. length (snd (snd (snd (snd s))))]"
  have wfR: "wf R" unfolding R_def by (rule wf_measures)
  show ?thesis using inv
  proof (induction s rule: wf_induct_rule[OF wfR])
    case (1 s)
    obtain anims gs fs prev pq where s: "s = (anims, gs, fs, prev, pq)" by (cases s)
    from 1(2) have ok: "scores_ok adjList gs" "queue_ok adjList startNode pq"
      "previous_ok adjList startNode prev"
      unfolding s aStar_inv_def by simp_all
    show ?case
    proof (cases "pq = []")
      case True
      then have "aStar_loop adjList ew endNode h s =
          Some (Inr \<lparr>r_animations = anims @ [Complete], r_path = [], r_distances = gs\<rparr>)"
        by (subst aStar_loop.simps) (simp add: s)
      then show ?thesis by simp
    next
      case False
      obtain u fScore pq1 where dq: "deq pq = ((u, fScore), pq1)"
        by (metis prod.exhaust)
      note dp = deq_props[OF False dq]
      from dp(1) ok(2) have ur: "reachable adjList startNode u" and uk: "map_of adjList u \<noteq> None"
        unfolding queue_ok_def by auto
      from ur unreach have ne: "u \<noteq> endNode" by auto
      from uk obtain ns where ns: "map_of adjList u = Some ns" by auto
      have q1: "queue_ok adjList startNode pq1"
        using ok(2) dp(3) unfolding queue_ok_def by blast
      define s1 where "s1 = (anims @ [Visit_a_star u], gs, fs, prev, pq1)"
      define s2 where "s2 = fold (aStar_relax ew endNode h u) ns s1"
      have e: "aStar_loop adjList ew endNode h s = aStar_loop adjList ew endNode h s2"
        using False dq ne ns
        by (subst aStar_loop.simps) (simp add: s s1_def s2_def)
      have i1: "aStar_inv adjList startNode s1"
        using ok(1,3) q1 by (simp add: aStar_inv_def s1_def)
      have nr: "\<forall>v \<in> set ns. reachable adjList startNode v"
        using reach_step[OF ur ns] by blast
      from aStar_relax_fold[OF w nr i1, of endNode h u]
      have i2: "aStar_inv adjList startNode s2" and pr: "aStar_progress s2 s1"
        unfolding s2_def by blast+
      obtain anims2 gs2 fs2 prev2 pq2 where s2: "s2 = (anims2, gs2, fs2, prev2, pq2)"
        by (cases s2)
      from pr have "pot_less gs2 gs \<or> (gs2 = gs \<and> pq2 = pq1)"
        unfolding s2 s1_def aStar_progress_def by simp
      then have "(s2, s) \<in> R"
        unfolding R_def s s2 pot_less_def using dp(2) by auto
      then show ?thesis unfolding e using i2 by (rule 1(1))
    qed
  qed
qed

lemma aStar_unreachable:
  assumes start: "map_of adjList startNode \<noteq> None" and w: "weights_ok ew"
    and unreach: "\<not> reachable adjList startNode endNode"
  shows "\<exists>r. aStar adjList ew startNode endNode h = Some (Inr r) \<and> r_path r = []"
proof -
  define gs where "gs = AList.update startNode (Num 0)
           (fold (\<lambda>node ds. AList.update node Infinity ds) (map fst adjList) [])"
  define fs where "fs = AList.update startNode (Num (h startNode endNode))
           (fold (\<lambda>node ds. AList.update node Infinity ds) (map fst adjList) [])"
  define s where "s = ([Start_a_star startNode], gs, fs, []::(string \<times> string) list,
                       enq (startNode, num_get fs startNode) [])"
  have "aStar_inv adjList startNode s"
    unfolding s_def aStar_inv_def gs_def
    using scores_ok_init[OF start] queue_ok_init[OF start] previous_ok_Nil by simp
  from aStar_loop_unreachable[OF w unreach this, of h]
  show ?thesis
    by (simp add: aStar_def Let_def gs_def[symmetric] fs_def[symmetric] s_def[symmetric])
qed

text \<open>
  Claim C2, as amended.  When the start node is a key of the adjacency map, no weight
  is negative and the end node cannot be reached from the start node, both pathfinders
  return a result and neither raises an error (there is no \<^verbatim>\<open>PathNotFound\<close>), and the
  path that \<^verbatim>\<open>aStar\<close> returns is the empty path.
\<close>

theorem unreachable_end_returns:
  assumes "map_of adjList startNode \<noteq> None" and "weights_ok edgeWeights"
    and "\<not> reachable adjList startNode endNode"
  shows "(\<exists>r. dijkstra adjList edgeWeights startNode endNode = Some (Inr r)) \<and>
         (\<exists>r. aStar adjList edgeWeights startNode endNode heuristic = Some (Inr r) \<and>
              r_path r = [])"
  using dijkstra_unreachable[OF assms] aStar_unreachable[OF assms] by blast

theorem unreachable_end_returns_witness:
  "map_of (fst (buildAdjacencyList split_edges split_weights)) ''A'' \<noteq> None \<and>
   weights_ok (snd (buildAdjacencyList split_edges split_weights)) \<and>
   \<not> reachable (fst (buildAdjacencyList split_edges split_weights)) ''A'' ''D'' \<and>
   (\<exists>r. dijkstra (fst (buildAdjacencyList split_edges split_weights))
          (snd (buildAdjacencyList split_edges split_weights)) ''A'' ''D'' = Some (Inr r)) \<and>
   (\<exists>r. aStar (fst (buildAdjacencyList split_edges split_weights))
          (snd (buildAdjacencyList split_edges split_weights)) ''A'' ''D'' flat_heuristic
          = Some (Inr r) \<and>
        r_path r = [])"
proof -
  have a: "map_of (fst (buildAdjacencyList split_edges split_weights)) ''A'' \<noteq> None"
    unfolding split_graph by simp
  have b: "weights_ok (snd (buildAdjacencyList split_edges split_weights))"
    unfolding split_graph weights_ok_def by (auto split: if_splits)
  have c: "\<not> reachable (fst (buildAdjacencyList split_edges split_weights)) ''A'' ''D''"
    using split_reachable[of "''D''"] by auto
  from unreachable_end_returns[OF a b c, of flat_heuristic] a b c show ?thesis by blast
qed

section \<open>Building and deleting in the linked list\<close>

lemma last_node_chain:
  assumes "\<forall>i<n. nnext (H ! i) = (if Suc i < n then Some (Suc i) else None)"
    and "n \<le> length H" and "a < n"
  shows "last_node H a = Some (n - 1)"
  using assms(3)
proof (induction "n - a" arbitrary: a)
  case 0
  then show ?case by simp
next
  case (Suc d)
  show ?case
  proof (cases "Suc a < n")
    case True
    with Suc have "last_node H (Suc a) = Some (n - 1)" by simp
    with True assms(1,2) Suc.prems show ?thesis
      by (subst last_node.simps) simp
  next
    case False
    with Suc.prems have "a = n - 1" by simp
    with assms(1,2) Suc.prems False show ?thesis
      by (subst last_node.simps) simp
  qed
qed

lemma length_chain [simp]: "length (chain lt vs) = length vs"
  by (simp add: chain_def)

lemma nth_chain:
  "i < length vs \<Longrightarrow> chain lt vs ! i =
     \<lparr>nval = vs ! i, nnext = (if Suc i < length vs then Some (Suc i) else None),
      nprev = (if lt = DoublyLinkedList \<and> 0 < i then Some (i - 1) else None)\<rparr>"
  by (simp add: chain_def)

lemma list_insert_chain:
  "list_insert (chain lt vs) (chain_head vs) v lt = Some (chain lt (vs @ [v]), chain_head (vs @ [v]))"
proof (cases "vs = []")
  case True
  then show ?thesis
    by (simp add: list_insert_def chain_head_def chain_def)
next
  case False
  define n where "n = length vs"
  define H where "H = chain lt vs @ [\<lparr>nval = v, nnext = None, nprev = None\<rparr>]"
  from False obtain m where lv: "length vs = Suc m" by (cases vs) auto
  then have n: "n = Suc m" by (simp add: n_def)
  have "last_node H 0 = Some (n - 1)"
  proof (rule last_node_chain)
    show "\<forall>i<n. nnext (H ! i) = (if Suc i < n then Some (Suc i) else None)"
      by (simp add: H_def n_def nth_append nth_chain)
    show "n \<le> length H" by (simp add: H_def n_def)
    show "0 < n" by (simp add: n)
  qed
  then have last: "last_node H 0 = Some m" by (simp add: n)
  have dbl: "H[m := (H ! m)\<lparr>nnext := Some (Suc m)\<rparr>,
               Suc m := (H ! Suc m)\<lparr>nprev := Some m\<rparr>] = chain DoublyLinkedList (vs @ [v])"
    if "lt = DoublyLinkedList"
    using that
    by (intro nth_equalityI)
       (auto simp: H_def lv nth_append nth_chain nth_list_update less_Suc_eq)
  have sgl: "H[m := (H ! m)\<lparr>nnext := Some (Suc m)\<rparr>] = chain lt (vs @ [v])"
    if "lt \<noteq> DoublyLinkedList"
    using that
    by (intro nth_equalityI)
       (auto simp: H_def lv nth_append nth_chain nth_list_update less_Suc_eq)
  from False last dbl sgl show ?thesis
    by (auto simp: list_insert_def chain_head_def Let_def H_def[symmetric] lv)
qed

lemma insert_all_chain:
  "insert_all lt vs (chain lt us, chain_head us) = Some (chain lt (us @ vs), chain_head (us @ vs))"
proof (induction vs arbitrary: us)
  case Nil
  show ?case by simp
next
  case (Cons v vs)
  from Cons[of "us @ [v]"] show ?case
    by (simp add: list_insert_chain)
qed

lemma insert_all_empty:
  "insert_all lt vs ([], None) = Some (chain lt vs, chain_head vs)"
  using insert_all_chain[of lt vs "[]"] by (simp add: chain_def chain_head_def)

lemma walk_chain_from:
  "i \<le> length vs \<Longrightarrow> length vs - i \<le> k \<Longrightarrow>
   walk k (chain lt vs) (if i < length vs then Some i else None) = drop i vs"
proof (induction k arbitrary: i)
  case 0
  then show ?case by simp
next
  case (Suc k)
  show ?case
  proof (cases "i < length vs")
    case False
    with Suc.prems show ?thesis by simp
  next
    case True
    with Suc.prems Suc.IH[of "Suc i"] show ?thesis
      by (simp add: nth_chain Cons_nth_drop_Suc)
  qed
qed

lemma walk_chain: "walk (length vs) (chain lt vs) (chain_head vs) = vs"
  using walk_chain_from[of 0 vs "length vs" lt] by (cases vs) (simp_all add: chain_head_def)

subsection \<open>Reading numbers\<close>

declare log2_floor.simps [simp del]

lemmas number_eval = Number_def trim_def is_space_def radix_of_def unsigned_literal_def
  unsigned_decimal_def signed_integer_def digits_def digit_of_def is_exp_def is_dot_def
  decimal_value_def to_double_def pow_int_def log2_floor.simps clog2.simps Let_def

text \<open>
  \<^verbatim>\<open>Number\<close> on some texts: integers, a fraction, an exponent, a hexadecimal literal,
  a dot without a fraction, white space, \<^verbatim>\<open>Infinity\<close>, an integer above \<open>2 ^ 53\<close> that
  is rounded, and texts that are no numbers.
\<close>

lemma Number_integers:
  "Number ''10'' = Some (Fin 10)" "Number ''20'' = Some (Fin 20)" "Number ''30'' = Some (Fin 30)"
  by (simp_all add: number_eval)

lemma Number_examples:
  "Number ''1.5'' = Some (Fin (3 / 2))"
  "Number ''1e3'' = Some (Fin 1000)"
  "Number ''0x10'' = Some (Fin 16)"
  "Number ''5.'' = Some (Fin 5)"
  "Number '' 7 '' = Some (Fin 7)"
  "Number ''-2.5'' = Some (Fin (- 5 / 2))"
  "Number ''Infinity'' = Some PosInf"
  "Number ''-Infinity'' = Some NegInf"
  "Number ''9007199254740993'' = Some (Fin 9007199254740992)"
  "Number ''0.1'' = Some (Fin (3602879701896397 / 36028797018963968))"
  "Number ''abc'' = None"
  "Number ''1,5'' = None"
  "Number ''12px'' = None"
  by (simp_all add: number_eval)

subsection \<open>Deleting the head\<close>

lemmas list_eval = buildList_def some_isNaN_def Number_integers list_insert_def last_node.simps
  empty_list_view_def Let_def

text \<open>
  Claim C8.  The doubly linked list built from \<open>10,20,30\<close> has its nodes at the
  references \<open>0\<close>, \<open>1\<close>, \<open>2\<close>.  Deleting \<open>10\<close> returns the reference \<open>1\<close> as the new head;
  the store is the old one with the backward link of node \<open>1\<close> set to \<^verbatim>\<open>null\<close> and
  nothing else changed; node \<open>1\<close> holds \<open>20\<close> and points forward to node \<open>2\<close>, which
  holds \<open>30\<close>, ends the list and points back to node \<open>1\<close>.
\<close>

theorem delete_head_of_doubly_linked_list:
  "\<exists>s. buildList (empty_list_view DoublyLinkedList ''10,20,30'') = Some s \<and>
       walk 3 (nodes s) (head s) = [Fin 10, Fin 20, Fin 30] \<and>
       (\<exists>h. deleteNode (nodes s) (head s) (Fin 10) [] DoublyLinkedList =
               Some (h, Some 1, [L_delete_head (Fin 10)]) \<and>
            h = (nodes s)[1 := (nodes s ! 1)\<lparr>nprev := None\<rparr>] \<and>
            walk 3 h (Some 1) = [Fin 20, Fin 30] \<and>
            h ! 1 = \<lparr>nval = Fin 20, nnext = Some 2, nprev = None\<rparr> \<and>
            h ! 2 = \<lparr>nval = Fin 30, nnext = None, nprev = Some 1\<rparr> \<and>
            h ! 2 = nodes s ! 2)"
  by (simp add: list_eval deleteNode_def numeral_eq_Suc)

section \<open>Empty tokens in the build input\<close>

lemma Number_empty: "Number [] = Some (Fin 0)"
  by (simp add: Number_def trim_def)

lemma token_value_empty: "token_value [] = Fin 0"
  by (simp add: token_value_def Number_empty)

lemma split_comma_not_Nil: "split_comma s \<noteq> []"
  by (induction s) (auto split: list.splits)

lemma some_isNaN_iff: "some_isNaN (map Number toks) \<longleftrightarrow> (\<exists>t\<in>set toks. Number t = None)"
  by (induction toks) (auto simp: some_isNaN_def)

text \<open>An input is turned down only for a token that is not empty.\<close>

lemma rejected_iff:
  "some_isNaN (map Number (split_comma input)) \<longleftrightarrow>
   (\<exists>t\<in>set (split_comma input). t \<noteq> [] \<and> Number t = None)"
proof -
  have "t \<noteq> []" if "Number t = None" for t
    using that Number_empty by auto
  then show ?thesis
    unfolding some_isNaN_iff by blast
qed

lemma mset_inOrder_tree_insert: "mset (inOrder (tree_insert t v)) = add_mset v (mset (inOrder t))"
  by (induction t) auto

lemma mset_inOrder_fold:
  "mset (inOrder (fold (\<lambda>v newTree. tree_insert newTree v) vs t)) = mset vs + mset (inOrder t)"
  by (induction vs arbitrary: t) (auto simp: mset_inOrder_tree_insert)

text \<open>
  Claim C9 fails as stated.  The input \<^verbatim>\<open>10,,abc\<close> holds an empty token, and both builders
  turn it down, for the token \<^verbatim>\<open>abc\<close>: the list stays empty, the tree stays \<^verbatim>\<open>null\<close>, and
  the message is the one for invalid input.
\<close>

theorem empty_token_counterexample:
  "[] \<in> set (split_comma ''10,,abc'') \<and>
   map_option (\<lambda>s. (head s, nodes s, explanation s))
     (buildList (empty_list_view SinglyLinkedList ''10,,abc'')) =
     Some (None, [], ''Invalid input. Please use comma-separated numbers.'') \<and>
   tree (buildTree (empty_tree_view ''10,,abc'')) = Null \<and>
   t_explanation (buildTree (empty_tree_view ''10,,abc'')) =
     ''Invalid input. Please use comma-separated numbers.''"
  by (simp add: buildList_def buildTree_def empty_list_view_def empty_tree_view_def Let_def
      some_isNaN_def Number_integers Number_examples Number_empty)

text \<open>
  Claim C9, as amended.  \<^verbatim>\<open>Number('')\<close> is \<open>0\<close>, so an empty token never fails the test
  \<^verbatim>\<open>values.some(isNaN)\<close>.  For every input whose tokens other than the empty ones read
  as numbers both builds succeed: the list builder returns the list of all token
  values in input order and the tree builder the tree of the same values, with value
  \<open>0\<close> at every empty token.
\<close>

theorem empty_token_builds_zero_node:
  "token_value [] = Fin 0 \<and>
   ((\<forall>t\<in>set (split_comma input). t \<noteq> [] \<longrightarrow> Number t \<noteq> None) \<longrightarrow>
      buildList (empty_list_view listType input) =
        Some ((empty_list_view listType input)
                \<lparr>head := Some 0,
                 nodes := chain listType (map token_value (split_comma input)),
                 explanation := ''Linked List built successfully.''\<rparr>) \<and>
      walk (length (split_comma input))
        (chain listType (map token_value (split_comma input))) (Some 0) =
        map token_value (split_comma input) \<and>
      (\<forall>i<length (split_comma input). split_comma input ! i = [] \<longrightarrow>
         nval (chain listType (map token_value (split_comma input)) ! i) = Fin 0) \<and>
      buildTree (empty_tree_view input) =
        (empty_tree_view input)
          \<lparr>tree := fold (\<lambda>v newTree. tree_insert newTree v)
                     (map token_value (split_comma input)) Null,
           t_explanation := ''Tree built successfully. Now you can search!''\<rparr> \<and>
      mset (inOrder (fold (\<lambda>v newTree. tree_insert newTree v)
                       (map token_value (split_comma input)) Null)) =
        mset (map token_value (split_comma input)))"
proof (intro conjI impI)
  show "token_value [] = Fin 0" by (rule token_value_empty)
next
  define toks where "toks = split_comma input"
  define vals where "vals = map token_value toks"
  assume ok: "\<forall>t\<in>set (split_comma input). t \<noteq> [] \<longrightarrow> Number t \<noteq> None"
  then have valid: "\<not> some_isNaN (map Number toks)"
    by (auto simp: rejected_iff toks_def)
  have the_vals: "map (the \<circ> Number) toks = vals"
    by (simp add: vals_def token_value_def comp_def)
  have ne: "vals \<noteq> []"
    using split_comma_not_Nil[of input] by (simp add: vals_def toks_def)
  then have hd0: "chain_head vals = Some 0"
    by (simp add: chain_head_def)
  show "buildList (empty_list_view listType input) =
        Some ((empty_list_view listType input)
                \<lparr>head := Some 0,
                 nodes := chain listType (map token_value (split_comma input)),
                 explanation := ''Linked List built successfully.''\<rparr>)"
    using valid
    by (simp add: buildList_def empty_list_view_def Let_def toks_def[symmetric] the_vals
          insert_all_empty hd0 vals_def[symmetric])
  show "walk (length (split_comma input))
        (chain listType (map token_value (split_comma input))) (Some 0) =
        map token_value (split_comma input)"
    using walk_chain[of vals listType] hd0 by (simp add: vals_def toks_def)
  show "\<forall>i<length (split_comma input). split_comma input ! i = [] \<longrightarrow>
         nval (chain listType (map token_value (split_comma input)) ! i) = Fin 0"
    by (simp add: nth_chain token_value_empty)
  show "buildTree (empty_tree_view input) =
        (empty_tree_view input)
          \<lparr>tree := fold (\<lambda>v newTree. tree_insert newTree v)
                     (map token_value (split_comma input)) Null,
           t_explanation := ''Tree built successfully. Now you can search!''\<rparr>"
    using valid
    by (simp add: buildTree_def empty_tree_view_def Let_def toks_def[symmetric] the_vals
          vals_def[symmetric])
  show "mset (inOrder (fold (\<lambda>v newTree. tree_insert newTree v)
                       (map token_value (split_comma input)) Null)) =
        mset (map token_value (split_comma input))"
    by (simp add: mset_inOrder_fold)
qed

theorem empty_token_builds_zero_node_witness:
  "buildList (empty_list_view DoublyLinkedList ''10,,20'') =
     Some ((empty_list_view DoublyLinkedList ''10,,20'')
             \<lparr>head := Some 0,
              nodes := [\<lparr>nval = Fin 10, nnext = Some 1, nprev = None\<rparr>,
                        \<lparr>nval = Fin 0, nnext = Some 2, nprev = Some 0\<rparr>,
                        \<lparr>nval = Fin 20, nnext = None, nprev = Some 1\<rparr>],
              explanation := ''Linked List built successfully.''\<rparr>) \<and>
   tree (buildTree (empty_tree_view ''10,,20'')) =
     Node (Node Null (Fin 0) Null) (Fin 10) (Node Null (Fin 20) Null)"
proof -
  have toks: "split_comma ''10,,20'' = [''10'', [], ''20'']"
    by simp
  have ok: "\<forall>t\<in>set (split_comma ''10,,20''). t \<noteq> [] \<longrightarrow> Number t \<noteq> None"
    unfolding toks by (simp add: Number_integers)
  have vals: "map token_value (split_comma ''10,,20'') = [Fin 10, Fin 0, Fin 20]"
    unfolding toks by (simp add: token_value_def Number_integers Number_empty)
  from empty_token_builds_zero_node[of "''10,,20''" DoublyLinkedList] ok
  show ?thesis
    unfolding vals by (simp add: chain_def numeral_eq_Suc upt_rec)
qed

section \<open>Sorting an array that is sorted already\<close>

lemma isArraySorted_Ascending: "isArraySorted xs Ascending \<longleftrightarrow> sorted xs"
proof (cases "length xs \<le> 1")
  case True
  then show ?thesis
    by (cases xs) (auto simp: isArraySorted_def)
next
  case False
  have "(\<forall>i\<in>{1..<length xs}. xs ! (i - 1) \<le> xs ! i) \<longleftrightarrow> (\<forall>i. Suc i < length xs \<longrightarrow> xs ! i \<le> xs ! Suc i)"
  proof (intro iffI allI impI ballI)
    fix i assume a: "\<forall>i\<in>{1..<length xs}. xs ! (i - 1) \<le> xs ! i" and "Suc i < length xs"
    then have "Suc i \<in> {1..<length xs}" by simp
    with a have "xs ! (Suc i - 1) \<le> xs ! Suc i" by blast
    then show "xs ! i \<le> xs ! Suc i" by simp
  next
    fix i assume a: "\<forall>i. Suc i < length xs \<longrightarrow> xs ! i \<le> xs ! Suc i" and "i \<in> {1..<length xs}"
    then obtain j where "i = Suc j" "Suc j < length xs" by (cases i) auto
    with a show "xs ! (i - 1) \<le> xs ! i" by simp
  qed
  with False show ?thesis
    by (simp add: isArraySorted_def list_all_iff not_less sorted_iff_nth_Suc)
qed

lemma isArraySorted_Descending: "isArraySorted xs Descending \<longleftrightarrow> sorted (rev xs)"
proof (cases "length xs \<le> 1")
  case True
  then show ?thesis
    by (cases xs) (auto simp: isArraySorted_def)
next
  case False
  have "(\<forall>i\<in>{1..<length xs}. xs ! i \<le> xs ! (i - 1)) \<longleftrightarrow>
        (\<forall>i j. i \<le> j \<longrightarrow> j < length xs \<longrightarrow> xs ! j \<le> xs ! i)"
  proof (intro iffI allI impI ballI)
    fix i j assume a: "\<forall>i\<in>{1..<length xs}. xs ! i \<le> xs ! (i - 1)" and "i \<le> j" "j < length xs"
    from this(2,3) show "xs ! j \<le> xs ! i"
    proof (induction j)
      case 0
      then show ?case by simp
    next
      case (Suc j)
      show ?case
      proof (cases "i = Suc j")
        case True
        then show ?thesis by simp
      next
        case False
        with Suc have "xs ! j \<le> xs ! i" by simp
        moreover from Suc.prems have "Suc j \<in> {1..<length xs}" by simp
        with a have "xs ! Suc j \<le> xs ! (Suc j - 1)" by blast
        ultimately show ?thesis by simp
      qed
    qed
  next
    fix i assume a: "\<forall>i j. i \<le> j \<longrightarrow> j < length xs \<longrightarrow> xs ! j \<le> xs ! i" and "i \<in> {1..<length xs}"
    then show "xs ! i \<le> xs ! (i - 1)" by simp
  qed
  moreover have "sorted (rev xs) \<longleftrightarrow> (\<forall>i j. i \<le> j \<longrightarrow> j < length xs \<longrightarrow> xs ! j \<le> xs ! i)"
  proof (intro iffI allI impI)
    fix i j assume s: "sorted (rev xs)" and ij: "i \<le> j" "j < length xs"
    from ij have "length xs - 1 - j \<le> length xs - 1 - i" "length xs - 1 - i < length (rev xs)"
      by auto
    from sorted_nth_mono[OF s this] ij show "xs ! j \<le> xs ! i"
      by (simp add: rev_nth)
  next
    assume a: "\<forall>i j. i \<le> j \<longrightarrow> j < length xs \<longrightarrow> xs ! j \<le> xs ! i"
    show "sorted (rev xs)"
      unfolding sorted_iff_nth_mono
    proof (intro allI impI)
      fix i j assume "i \<le> j" "j < length (rev xs)"
      then have "length xs - 1 - j \<le> length xs - 1 - i" "length xs - 1 - i < length xs"
        by auto
      with a have "xs ! (length xs - 1 - i) \<le> xs ! (length xs - 1 - j)" by blast
      with \<open>i \<le> j\<close> \<open>j < length (rev xs)\<close> show "rev xs ! i \<le> rev xs ! j"
        by (simp add: rev_nth)
    qed
  qed
  ultimately show ?thesis using False
    by (simp add: isArraySorted_def list_all_iff not_less)
qed

lemma isArraySorted_iff: "isArraySorted xs ord \<longleftrightarrow> sorted_under ord xs"
  by (cases ord) (simp_all add: sorted_under_def isArraySorted_Ascending isArraySorted_Descending)

text \<open>
  Claim C10.  When the loaded array is in order under the selected flag,
  \<^verbatim>\<open>handleSort\<close> shows the alert and changes nothing else: the array, the animation
  index, the flag \<^verbatim>\<open>isSorting\<close>, the stored trace and every other part of the state stay
  as they were.
\<close>

theorem handleSort_on_sorted_array:
  "s_array s \<noteq> [] \<Longrightarrow> sorted_under (s_sortOrder s) (s_array s) \<Longrightarrow>
   handleSort s = s\<lparr>s_alerts := s_alerts s @ [''Array is already sorted!'']\<rparr> \<and>
   s_array (handleSort s) = s_array s \<and>
   s_currentAnimationIndexRef (handleSort s) = s_currentAnimationIndexRef s \<and>
   s_isSorting (handleSort s) = s_isSorting s \<and>
   s_animationsRef (handleSort s) = s_animationsRef s \<and>
   s_localArrayRef (handleSort s) = s_localArrayRef s"
  by (simp add: handleSort_def isArraySorted_iff)

theorem handleSort_on_sorted_array_witness:
  "s_array (loaded_view [3, 2, 2, 1] QuickSort Descending) \<noteq> [] \<and>
   sorted_under Descending [3, 2, 2, 1] \<and>
   handleSort (loaded_view [3, 2, 2, 1] QuickSort Descending) =
     (loaded_view [3, 2, 2, 1] QuickSort Descending)\<lparr>s_alerts := [''Array is already sorted!'']\<rparr>"
proof -
  have a: "s_array (loaded_view [3, 2, 2, 1] QuickSort Descending) \<noteq> []"
    by (simp add: loaded_view_def)
  have b: "sorted_under (s_sortOrder (loaded_view [3, 2, 2, 1] QuickSort Descending))
             (s_array (loaded_view [3, 2, 2, 1] QuickSort Descending))"
    by (simp add: loaded_view_def sorted_under_def)
  from handleSort_on_sorted_array[OF a b] a b show ?thesis
    by (simp add: loaded_view_def)
qed

section \<open>Bubble sort: finalized positions stay untouched\<close>

lemma finalized_respected_append:
  "finalized_respected (as @ bs) \<longleftrightarrow>
     finalized_respected as \<and> finalized_respected bs \<and>
     (\<forall>a\<in>set as. atype a = Final_position \<longrightarrow>
        (\<forall>i\<in>set (indices a). \<forall>b\<in>set bs. \<not> touches b i))"
  by (induction as) auto

lemma finalized_respected_nth:
  "finalized_respected tr \<Longrightarrow> p < q \<Longrightarrow> q < length tr \<Longrightarrow> atype (tr ! p) = Final_position \<Longrightarrow>
   i \<in> set (indices (tr ! p)) \<Longrightarrow> \<not> touches (tr ! q) i"
proof (induction tr arbitrary: p q)
  case Nil
  then show ?case by simp
next
  case (Cons a tr)
  show ?case
  proof (cases p)
    case 0
    with Cons.prems obtain q' where q: "q = Suc q'" "q' < length tr" by (cases q) auto
    with Cons.prems 0 show ?thesis by auto
  next
    case (Suc p')
    with Cons.prems obtain q' where q: "q = Suc q'" "q' < length tr" "p' < q'" by (cases q) auto
    with Cons.IH[of p' q'] Cons.prems Suc show ?thesis by auto
  qed
qed

lemma bubble_inner_steps:
  "\<exists>arr' E. bubble_inner c j (arr, anims) = (arr', anims @ E) \<and> length arr' = length arr \<and>
     pass_steps (Suc j) E"
  by (auto simp: bubble_inner_def Let_def pass_steps_def anim_def swap_elems_def)

lemma pass_steps_mono: "pass_steps k E \<Longrightarrow> k \<le> k' \<Longrightarrow> pass_steps k' E"
  by (fastforce simp: pass_steps_def)

lemma pass_steps_append: "pass_steps k (E @ E') \<longleftrightarrow> pass_steps k E \<and> pass_steps k E'"
  by (auto simp: pass_steps_def)

lemma bubble_inner_fold_steps:
  "\<exists>arr' E. fold (bubble_inner c) [0..<k] (arr, anims) = (arr', anims @ E) \<and>
     length arr' = length arr \<and> pass_steps k E"
proof (induction k)
  case 0
  show ?case by (simp add: pass_steps_def)
next
  case (Suc k)
  then obtain arr1 E1 where 1: "fold (bubble_inner c) [0..<k] (arr, anims) = (arr1, anims @ E1)"
    "length arr1 = length arr" "pass_steps k E1" by blast
  from bubble_inner_steps[of c k arr1 "anims @ E1"] obtain arr2 E2 where
    2: "bubble_inner c k (arr1, anims @ E1) = (arr2, (anims @ E1) @ E2)"
    "length arr2 = length arr1" "pass_steps (Suc k) E2" by blast
  from 1 2 pass_steps_mono[OF 1(3), of "Suc k"] show ?case
    by (auto simp: pass_steps_append intro!: exI[of _ "E1 @ E2"])
qed

text \<open>
  After \<open>m\<close> passes the trace respects its \<^verbatim>\<open>final_position\<close> steps, and these name
  positions from \<open>n - m\<close> upwards only; the next pass compares and swaps below \<open>n - m\<close>.
\<close>

lemma bubble_outer_fold_trace:
  "m \<le> length xs - 1 \<Longrightarrow>
   \<exists>arr tr. fold (bubble_outer c) [0..<m] (xs, []) = (arr, tr) \<and> length arr = length xs \<and>
     finalized_respected tr \<and> finals_from (int (length xs) - int m) tr"
proof (induction m)
  case 0
  show ?case by (simp add: finals_from_def)
next
  case (Suc m)
  then obtain arr tr where 1: "fold (bubble_outer c) [0..<m] (xs, []) = (arr, tr)"
    "length arr = length xs" "finalized_respected tr" "finals_from (int (length xs) - int m) tr"
    by auto
  define n where "n = length xs"
  from bubble_inner_fold_steps[of c "n - m - 1" arr tr] obtain arr' E where
    2: "fold (bubble_inner c) [0..<n - m - 1] (arr, tr) = (arr', tr @ E)"
    "length arr' = length arr" "pass_steps (n - m - 1) E" by blast
  define F where "F = anim Final_position [int n - 1 - int m]"
  have step: "bubble_outer c m (arr, tr) = (arr', tr @ E @ [F])"
    using 1(2) 2 by (simp add: bubble_outer_def n_def F_def)
  have m: "Suc m \<le> n - 1" using Suc.prems by (simp add: n_def)
  have noF: "\<forall>e\<in>set E. atype e \<noteq> Final_position"
    using 2(3) by (simp add: pass_steps_def)
  have rE: "finalized_respected E"
    using noF by (induction E) auto
  have low: "\<forall>e\<in>set E. \<forall>x\<in>set (indices e). x < int n - int m"
    using 2(3) m by (fastforce simp: pass_steps_def)
  have notF: "\<not> touches F i" for i
    by (simp add: touches_def F_def anim_def)
  have "finalized_respected (tr @ E @ [F])"
    using 1(3,4) rE noF low notF
    by (fastforce simp: finalized_respected_append finals_from_def n_def touches_def)
  moreover have "finals_from (int n - int (Suc m)) (tr @ E @ [F])"
    using 1(4) noF by (fastforce simp: finals_from_def F_def anim_def n_def)
  ultimately show ?case using 1 2 step
    by (simp add: n_def)
qed

lemma bubbleSort_trace_respects: "finalized_respected (animations (bubbleSort val xs ord))"
proof -
  from bubble_outer_fold_trace[of "length xs - 1" xs "shouldSwap val ord"]
  obtain arr tr where 1: "fold (bubble_outer (shouldSwap val ord)) [0..<length xs - 1] (xs, []) = (arr, tr)"
    "finalized_respected tr" by auto
  then show ?thesis
    by (simp add: bubbleSort_def finalized_respected_append anim_def touches_def)
qed

text \<open>
  Claim C6.  In the trace of bubbleSort, a comparison or swap that comes after a
  \<^verbatim>\<open>final_position\<close> step does not name the position that step has named.
\<close>

theorem bubbleSort_finalized_untouched:
  "p < q \<Longrightarrow> q < length (animations (bubbleSort val xs ord)) \<Longrightarrow>
   atype (animations (bubbleSort val xs ord) ! p) = Final_position \<Longrightarrow>
   i \<in> set (indices (animations (bubbleSort val xs ord) ! p)) \<Longrightarrow>
   \<not> touches (animations (bubbleSort val xs ord) ! q) i"
  using finalized_respected_nth[OF bubbleSort_trace_respects] by blast

lemma bubbleSort_example_trace:
  "animations (bubbleSort (\<lambda>x. x) [3, 1, 2 :: int] Ascending) =
     [anim Compare [0, 1], anim Swap [0, 1], anim Reset [0, 1],
      anim Compare [1, 2], anim Swap [1, 2], anim Reset [1, 2],
      anim Final_position [2],
      anim Compare [0, 1], anim Reset [0, 1],
      anim Final_position [1],
      anim Final_position [0]]"
  by (simp add: bubbleSort_def bubble_outer_def bubble_inner_def shouldSwap_def swap_elems_def
        upt_rec numeral_eq_Suc)

theorem bubbleSort_finalized_untouched_witness:
  "(6 :: nat) < 7 \<and> 7 < length (animations (bubbleSort (\<lambda>x. x) [3, 1, 2 :: int] Ascending)) \<and>
   animations (bubbleSort (\<lambda>x. x) [3, 1, 2 :: int] Ascending) ! 6 = anim Final_position [2] \<and>
   animations (bubbleSort (\<lambda>x. x) [3, 1, 2 :: int] Ascending) ! 7 = anim Compare [0, 1] \<and>
   \<not> touches (animations (bubbleSort (\<lambda>x. x) [3, 1, 2 :: int] Ascending) ! 7) 2"
proof -
  let ?tr = "animations (bubbleSort (\<lambda>x. x) [3, 1, 2 :: int] Ascending)"
  have a: "(6 :: nat) < 7" by simp
  have b: "7 < length ?tr" by (simp add: bubbleSort_example_trace)
  have c: "?tr ! 6 = anim Final_position [2]" by (simp add: bubbleSort_example_trace)
  have d: "?tr ! 7 = anim Compare [0, 1]" by (simp add: bubbleSort_example_trace)
  have e: "atype (?tr ! 6) = Final_position" by (simp add: c anim_def)
  have f: "2 \<in> set (indices (?tr ! 6))" by (simp add: c anim_def)
  from bubbleSort_finalized_untouched[OF a b e f] a b c d show ?thesis by blast
qed

section \<open>The sorting generators sort\<close>

subsection \<open>Swapping two positions\<close>

lemma length_swap_elems [simp]: "length (swap_elems arr i j) = length arr"
  by (simp add: swap_elems_def)

lemma mset_swap_elems: "i < length arr \<Longrightarrow> j < length arr \<Longrightarrow> mset (swap_elems arr i j) = mset arr"
  by (simp add: swap_elems_def mset_swap)

lemma nth_swap_elems:
  "i < length arr \<Longrightarrow> j < length arr \<Longrightarrow> p < length arr \<Longrightarrow>
   swap_elems arr i j ! p = (if p = j then arr ! i else if p = i then arr ! j else arr ! p)"
  by (simp add: swap_elems_def nth_list_update)

lemma take_swap_elems:
  "i < m \<Longrightarrow> j < m \<Longrightarrow> m \<le> length arr \<Longrightarrow>
   take m (swap_elems arr i j) = swap_elems (take m arr) i j"
  by (simp add: swap_elems_def take_update_swap)

lemma drop_swap_elems:
  "i < m \<Longrightarrow> j < m \<Longrightarrow> drop m (swap_elems arr i j) = drop m arr"
  by (simp add: swap_elems_def)

lemma mset_take_swap_elems:
  "i < m \<Longrightarrow> j < m \<Longrightarrow> m \<le> length arr \<Longrightarrow>
   mset (take m (swap_elems arr i j)) = mset (take m arr)"
  by (simp add: take_swap_elems mset_swap_elems)

lemma nth_eq_of_drop_eq:
  assumes "drop m xs = drop m ys" and "m \<le> p" and "p < length xs" and "length xs = length ys"
  shows "xs ! p = ys ! p"
proof -
  have "drop m xs ! (p - m) = xs ! p" using assms(2,3) by simp
  moreover have "drop m ys ! (p - m) = ys ! p" using assms(2,3,4) by simp
  ultimately show ?thesis using assms(1) by simp
qed

lemma set_take_Suc:
  "k < length xs \<Longrightarrow> set (take (Suc k) xs) = insert (xs ! k) (set (take k xs))"
  by (simp add: take_Suc_conv_app_nth)

subsection \<open>bubbleSort\<close>

text \<open>
  The inner loop up to position \<open>k\<close> permutes the first \<open>k + 1\<close> positions, leaves the
  rest alone and ends with a greatest element at position \<open>k\<close>.
\<close>

lemma bubble_inner_pass:
  assumes gt: "gt_by key c"
  shows "k < length arr \<Longrightarrow>
    \<exists>arr' anims'. fold (bubble_inner c) [0..<k] (arr, anims) = (arr', anims') \<and>
      length arr' = length arr \<and>
      mset (take (Suc k) arr') = mset (take (Suc k) arr) \<and>
      drop (Suc k) arr' = drop (Suc k) arr \<and>
      (\<forall>x\<in>set (take (Suc k) arr'). key x \<le> key (arr' ! k))"
proof (induction k)
  case 0
  then show ?case by (simp add: take_Suc_conv_app_nth)
next
  case (Suc k)
  then obtain arr1 anims1 where 1:
    "fold (bubble_inner c) [0..<k] (arr, anims) = (arr1, anims1)"
    "length arr1 = length arr"
    "mset (take (Suc k) arr1) = mset (take (Suc k) arr)"
    "drop (Suc k) arr1 = drop (Suc k) arr"
    "\<forall>x\<in>set (take (Suc k) arr1). key x \<le> key (arr1 ! k)"
    by auto
  from Suc.prems 1(2) have len: "Suc k < length arr1" by simp
  have nxt: "arr1 ! Suc k = arr ! Suc k"
    using nth_eq_of_drop_eq[OF 1(4) _ len 1(2)] by simp
  have tk: "mset (take (Suc (Suc k)) arr1) = mset (take (Suc (Suc k)) arr)"
    using 1(3) len Suc.prems nxt by (simp add: take_Suc_conv_app_nth[of "Suc k"])
  have dr: "drop (Suc (Suc k)) arr1 = drop (Suc (Suc k)) arr"
    using 1(4) by (metis drop_Suc tl_drop)
  show ?case
  proof (cases "c (arr1 ! k) (arr1 ! Suc k)")
    case True
    define arr2 where "arr2 = swap_elems arr1 k (Suc k)"
    from True gt have lt: "key (arr1 ! Suc k) < key (arr1 ! k)" by (simp add: gt_by_def)
    have "mset (take (Suc (Suc k)) arr2) = mset (take (Suc (Suc k)) arr1)"
      unfolding arr2_def using len by (intro mset_take_swap_elems) simp_all
    then have s: "set (take (Suc (Suc k)) arr2) = set (take (Suc (Suc k)) arr1)"
      by (rule mset_eq_setD)
    have top: "arr2 ! Suc k = arr1 ! k"
      unfolding arr2_def using len by (simp add: nth_swap_elems)
    have mx: "\<forall>x\<in>set (take (Suc (Suc k)) arr2). key x \<le> key (arr2 ! Suc k)"
      unfolding s top using 1(5) lt len by (auto simp: set_take_Suc[of "Suc k"])
    have "fold (bubble_inner c) [0..<Suc k] (arr, anims) =
            (arr2, anims1 @ [anim Compare [int k, int k + 1], anim Swap [int k, int k + 1],
                            anim Reset [int k, int k + 1]])"
      using 1(1) True by (simp add: bubble_inner_def arr2_def)
    moreover have "mset (take (Suc (Suc k)) arr2) = mset (take (Suc (Suc k)) arr)"
      using \<open>mset (take (Suc (Suc k)) arr2) = mset (take (Suc (Suc k)) arr1)\<close> tk by simp
    moreover have "drop (Suc (Suc k)) arr2 = drop (Suc (Suc k)) arr"
      unfolding arr2_def using dr by (simp add: drop_swap_elems)
    ultimately show ?thesis using mx 1(2) by (simp add: arr2_def)
  next
    case False
    with gt have le: "key (arr1 ! k) \<le> key (arr1 ! Suc k)" by (simp add: gt_by_def)
    have mx: "\<forall>x\<in>set (take (Suc (Suc k)) arr1). key x \<le> key (arr1 ! Suc k)"
      using 1(5) le len by (auto simp: set_take_Suc[of "Suc k"])
    have "fold (bubble_inner c) [0..<Suc k] (arr, anims) =
            (arr1, anims1 @ [anim Compare [int k, int k + 1], anim Reset [int k, int k + 1]])"
      using 1(1) False by (simp add: bubble_inner_def)
    with tk dr mx 1(2) show ?thesis by simp
  qed
qed


text \<open>
  One pass of the outer loop of bubbleSort makes the sorted tail one position longer;
  every element before the tail stays below the tail.
\<close>

lemma bubble_outer_pass:
  assumes gt: "gt_by key c" and m: "Suc m \<le> length arr - 1"
    and srt: "sorted (map key (drop (length arr - m) arr))"
    and sep: "\<forall>x\<in>set (take (length arr - m) arr). \<forall>y\<in>set (drop (length arr - m) arr). key x \<le> key y"
  shows "\<exists>arr' anims'. bubble_outer c m (arr, anims) = (arr', anims') \<and>
      length arr' = length arr \<and> mset arr' = mset arr \<and>
      sorted (map key (drop (length arr - Suc m) arr')) \<and>
      (\<forall>x\<in>set (take (length arr - Suc m) arr'). \<forall>y\<in>set (drop (length arr - Suc m) arr'). key x \<le> key y)"
proof -
  define n where "n = length arr"
  define k where "k = n - m - 1"
  from m have k: "k < n" "Suc k = n - m" "k = n - Suc m" by (simp_all add: k_def n_def)
  from bubble_inner_pass[OF gt, of k arr anims] k obtain arr' anims' where 1:
    "fold (bubble_inner c) [0..<k] (arr, anims) = (arr', anims')"
    "length arr' = n"
    "mset (take (Suc k) arr') = mset (take (Suc k) arr)"
    "drop (Suc k) arr' = drop (Suc k) arr"
    "\<forall>x\<in>set (take (Suc k) arr'). key x \<le> key (arr' ! k)"
    by (auto simp: n_def)
  have st: "set (take (Suc k) arr') = set (take (Suc k) arr)"
    using 1(3) by (rule mset_eq_setD)
  have ms: "mset arr' = mset arr"
  proof -
    have "mset arr' = mset (take (Suc k) arr') + mset (drop (Suc k) arr')"
      by (metis append_take_drop_id mset_append)
    also have "\<dots> = mset (take (Suc k) arr) + mset (drop (Suc k) arr)"
      using 1(3,4) by simp
    also have "\<dots> = mset arr"
      by (metis append_take_drop_id mset_append)
    finally show ?thesis .
  qed
  have dk: "drop k arr' = arr' ! k # drop (Suc k) arr"
    using k 1(2,4) by (simp add: Cons_nth_drop_Suc[symmetric])
  have ink: "arr' ! k \<in> set (take (Suc k) arr)"
    using st k 1(2) by (auto simp: set_take_Suc)
  have s1: "sorted (map key (drop k arr'))"
    unfolding dk using srt sep ink k by (auto simp: n_def[symmetric])
  have tk: "set (take k arr') \<subseteq> set (take (Suc k) arr')"
    by (meson set_take_subset_set_take le_SucI order_refl)
  have s2: "\<forall>x\<in>set (take k arr'). \<forall>y\<in>set (drop k arr'). key x \<le> key y"
  proof (intro ballI)
    fix x y assume x: "x \<in> set (take k arr')" and y: "y \<in> set (drop k arr')"
    from x tk have x': "x \<in> set (take (Suc k) arr')" by blast
    from y dk have "y = arr' ! k \<or> y \<in> set (drop (Suc k) arr)" by auto
    then show "key x \<le> key y"
    proof
      assume "y = arr' ! k"
      with 1(5) x' show ?thesis by blast
    next
      assume "y \<in> set (drop (Suc k) arr)"
      moreover from x' st have "x \<in> set (take (Suc k) arr)" by blast
      ultimately show ?thesis using sep k by (auto simp: n_def[symmetric])
    qed
  qed
  have "bubble_outer c m (arr, anims) =
          (arr', anims' @ [anim Final_position [int (length arr') - 1 - int m]])"
    using 1(1) by (simp add: bubble_outer_def k_def n_def)
  with 1(2) ms s1 s2 k show ?thesis
    by (simp add: n_def)
qed

lemma bubble_outer_fold:
  assumes gt: "gt_by key c"
  shows "m \<le> length xs - 1 \<Longrightarrow>
    \<exists>arr anims. fold (bubble_outer c) [0..<m] (xs, []) = (arr, anims) \<and>
      length arr = length xs \<and> mset arr = mset xs \<and>
      sorted (map key (drop (length xs - m) arr)) \<and>
      (\<forall>x\<in>set (take (length xs - m) arr). \<forall>y\<in>set (drop (length xs - m) arr). key x \<le> key y)"
proof (induction m)
  case 0
  show ?case by simp
next
  case (Suc m)
  from Suc.prems have "m \<le> length xs - 1" by simp
  from Suc.IH[OF this] obtain arr anims where 1:
    "fold (bubble_outer c) [0..<m] (xs, []) = (arr, anims)"
    "length arr = length xs" "mset arr = mset xs"
    "sorted (map key (drop (length xs - m) arr))"
    "\<forall>x\<in>set (take (length xs - m) arr). \<forall>y\<in>set (drop (length xs - m) arr). key x \<le> key y"
    by blast
  have m': "Suc m \<le> length arr - 1" using Suc.prems 1(2) by simp
  have srt: "sorted (map key (drop (length arr - m) arr))" using 1(4) 1(2) by simp
  have sep: "\<forall>x\<in>set (take (length arr - m) arr). \<forall>y\<in>set (drop (length arr - m) arr). key x \<le> key y"
    using 1(5) 1(2) by simp
  from bubble_outer_pass[OF gt m' srt sep, of anims] obtain arr' anims' where 2:
    "bubble_outer c m (arr, anims) = (arr', anims')"
    "length arr' = length arr" "mset arr' = mset arr"
    "sorted (map key (drop (length arr - Suc m) arr'))"
    "\<forall>x\<in>set (take (length arr - Suc m) arr'). \<forall>y\<in>set (drop (length arr - Suc m) arr'). key x \<le> key y"
    by blast
  have "fold (bubble_outer c) [0..<Suc m] (xs, []) = (arr', anims')"
    using 1(1) 2(1) by simp
  moreover have "length arr' = length xs" using 1(2) 2(2) by simp
  moreover have "mset arr' = mset xs" using 1(3) 2(3) by simp
  moreover have "sorted (map key (drop (length xs - Suc m) arr'))" using 2(4) 1(2) by simp
  moreover have "\<forall>x\<in>set (take (length xs - Suc m) arr'). \<forall>y\<in>set (drop (length xs - Suc m) arr'). key x \<le> key y"
    using 2(5) 1(2) by simp
  ultimately show ?case by blast
qed

lemma sorted_from_one:
  assumes "sorted (map key (drop 1 arr))"
    and "\<forall>x\<in>set (take 1 arr). \<forall>y\<in>set (drop 1 arr). key x \<le> key y"
  shows "sorted (map key arr)"
  using assms by (cases arr) auto

lemma bubbleSort_sorts:
  assumes gt: "gt_by key (shouldSwap val ord)"
  shows "mset (finalArray (bubbleSort val xs ord)) = mset xs \<and>
         sorted (map key (finalArray (bubbleSort val xs ord)))"
proof -
  from bubble_outer_fold[OF gt order_refl, of xs] obtain arr anims where 1:
    "fold (bubble_outer (shouldSwap val ord)) [0..<length xs - 1] (xs, []) = (arr, anims)"
    "length arr = length xs" "mset arr = mset xs"
    "sorted (map key (drop (length xs - (length xs - 1)) arr))"
    "\<forall>x\<in>set (take (length xs - (length xs - 1)) arr).
       \<forall>y\<in>set (drop (length xs - (length xs - 1)) arr). key x \<le> key y"
    by blast
  have "sorted (map key arr)"
  proof (cases "length xs = 0")
    case True
    with 1(2) show ?thesis by simp
  next
    case False
    then have one: "length xs - (length xs - 1) = 1" by (cases xs) simp_all
    show ?thesis
    proof (rule sorted_from_one)
      show "sorted (map key (drop 1 arr))" using 1(4) unfolding one .
      show "\<forall>x\<in>set (take 1 arr). \<forall>y\<in>set (drop 1 arr). key x \<le> key y"
        using 1(5) unfolding one .
    qed
  qed
  with 1(1,3) show ?thesis by (simp add: bubbleSort_def)
qed

subsection \<open>selectionSort\<close>

lemma take_swap_elems_suffix:
  "i \<le> a \<Longrightarrow> i \<le> b \<Longrightarrow> take i (swap_elems arr a b) = take i arr"
  by (simp add: swap_elems_def)

lemma mset_drop_swap_elems:
  assumes "i \<le> a" "i \<le> b" "a < length arr" "b < length arr"
  shows "mset (drop i (swap_elems arr a b)) = mset (drop i arr)"
proof -
  have "drop i (swap_elems arr a b) = swap_elems (drop i arr) (a - i) (b - i)"
    using assms by (simp add: swap_elems_def drop_update_swap)
  moreover have "mset (swap_elems (drop i arr) (a - i) (b - i)) = mset (drop i arr)"
    using assms by (intro mset_swap_elems) auto
  ultimately show ?thesis by simp
qed

lemma in_set_drop_nth:
  "y \<in> set (drop i arr) \<Longrightarrow> \<exists>p. i \<le> p \<and> p < length arr \<and> y = arr ! p"
proof -
  assume "y \<in> set (drop i arr)"
  then obtain q where q: "q < length (drop i arr)" "y = drop i arr ! q"
    by (auto simp: in_set_conv_nth)
  then have "i + q < length arr" "y = arr ! (i + q)" by auto
  then show ?thesis by (intro exI[of _ "i + q"]) simp
qed

lemma nth_in_set_drop: "i \<le> p \<Longrightarrow> p < length arr \<Longrightarrow> arr ! p \<in> set (drop i arr)"
proof -
  assume a: "i \<le> p" "p < length arr"
  then have "drop i arr ! (p - i) = arr ! p" "p - i < length (drop i arr)" by auto
  then show ?thesis by (metis nth_mem)
qed

text \<open>
  The inner loop finds a position of a least element among the positions from \<open>i\<close>
  on; the outer loop swaps it to position \<open>i\<close>, which makes the sorted front one
  position longer.
\<close>

lemma selection_inner_fold:
  assumes gt: "gt_by key c"
  shows "Suc i \<le> b \<Longrightarrow> b \<le> length arr \<Longrightarrow>
    \<exists>m anims'. fold (selection_inner c arr) [Suc i..<b] (i, anims) = (m, anims') \<and>
      i \<le> m \<and> m < b \<and> (\<forall>p. i \<le> p \<and> p < b \<longrightarrow> key (arr ! m) \<le> key (arr ! p))"
proof (induction b)
  case 0
  then show ?case by simp
next
  case (Suc b)
  show ?case
  proof (cases "Suc i \<le> b")
    case False
    with Suc.prems have b: "b = i" by simp
    have "\<forall>p. i \<le> p \<and> p < Suc b \<longrightarrow> key (arr ! i) \<le> key (arr ! p)"
    proof (intro allI impI)
      fix p assume "i \<le> p \<and> p < Suc b"
      with b have "p = i" by simp
      then show "key (arr ! i) \<le> key (arr ! p)" by simp
    qed
    with b show ?thesis by simp
  next
    case True
    from Suc.prems have "b \<le> length arr" by simp
    from Suc.IH[OF True this] obtain m anims1 where 1:
      "fold (selection_inner c arr) [Suc i..<b] (i, anims) = (m, anims1)"
      "i \<le> m" "m < b" "\<forall>p. i \<le> p \<and> p < b \<longrightarrow> key (arr ! m) \<le> key (arr ! p)"
      by blast
    have app: "[Suc i..<Suc b] = [Suc i..<b] @ [b]" using True by simp
    show ?thesis
    proof (cases "c (arr ! m) (arr ! b)")
      case True
      with gt have lt: "key (arr ! b) < key (arr ! m)" by (simp add: gt_by_def)
      have "fold (selection_inner c arr) [Suc i..<Suc b] (i, anims) =
              (b, anims1 @ [anim Compare [int b, int m], anim Mark_min_change [int b, int m],
                            anim Reset [int b, int b]])"
        unfolding app using 1(1) True by (simp add: selection_inner_def)
      moreover have "\<forall>p. i \<le> p \<and> p < Suc b \<longrightarrow> key (arr ! b) \<le> key (arr ! p)"
      proof (intro allI impI)
        fix p assume p: "i \<le> p \<and> p < Suc b"
        show "key (arr ! b) \<le> key (arr ! p)"
        proof (cases "p = b")
          case True then show ?thesis by simp
        next
          case False
          with p 1(4) have "key (arr ! m) \<le> key (arr ! p)" by simp
          with lt show ?thesis by simp
        qed
      qed
      moreover have "i \<le> b" using \<open>Suc i \<le> b\<close> by simp
      ultimately show ?thesis by blast
    next
      case False
      with gt have le: "key (arr ! m) \<le> key (arr ! b)" by (simp add: gt_by_def)
      have "fold (selection_inner c arr) [Suc i..<Suc b] (i, anims) =
              (m, anims1 @ [anim Compare [int b, int m], anim Reset [int b, int m]])"
        unfolding app using 1(1) False by (simp add: selection_inner_def)
      moreover have "\<forall>p. i \<le> p \<and> p < Suc b \<longrightarrow> key (arr ! m) \<le> key (arr ! p)"
      proof (intro allI impI)
        fix p assume p: "i \<le> p \<and> p < Suc b"
        show "key (arr ! m) \<le> key (arr ! p)"
        proof (cases "p = b")
          case True with le show ?thesis by simp
        next
          case False
          with p 1(4) show ?thesis by simp
        qed
      qed
      moreover have "m < Suc b" using 1(3) by simp
      ultimately show ?thesis using 1(2) by blast
    qed
  qed
qed

lemma selection_outer_pass:
  assumes gt: "gt_by key c" and i: "i < length arr"
    and srt: "sorted (map key (take i arr))"
    and sep: "\<forall>x\<in>set (take i arr). \<forall>y\<in>set (drop i arr). key x \<le> key y"
  shows "\<exists>arr' anims'. selection_outer c i (arr, anims) = (arr', anims') \<and>
      length arr' = length arr \<and> mset arr' = mset arr \<and>
      sorted (map key (take (Suc i) arr')) \<and>
      (\<forall>x\<in>set (take (Suc i) arr'). \<forall>y\<in>set (drop (Suc i) arr'). key x \<le> key y)"
proof -
  from i have "Suc i \<le> length arr" by simp
  from selection_inner_fold[OF gt this order_refl, of "anims @ [anim Mark_min [int i]]"]
  obtain m anims1 where 1:
    "fold (selection_inner c arr) [Suc i..<length arr] (i, anims @ [anim Mark_min [int i]]) = (m, anims1)"
    "i \<le> m" "m < length arr"
    "\<forall>p. i \<le> p \<and> p < length arr \<longrightarrow> key (arr ! m) \<le> key (arr ! p)"
    by blast
  define arr' where "arr' = swap_elems arr i m"
  have same: "swap_elems arr i i = arr" by (simp add: swap_elems_def)
  have out: "\<exists>anims'. selection_outer c i (arr, anims) = (arr', anims')"
    using 1(1) same by (cases "m = i") (simp_all add: selection_outer_def arr'_def)
  have len: "length arr' = length arr" by (simp add: arr'_def)
  have ms: "mset arr' = mset arr" unfolding arr'_def using i 1(3) by (rule mset_swap_elems)
  have tk: "take i arr' = take i arr"
    unfolding arr'_def using 1(2) by (simp add: take_swap_elems_suffix)
  have at_i: "arr' ! i = arr ! m"
    unfolding arr'_def using i 1(3) by (simp add: nth_swap_elems)
  have tk1: "take (Suc i) arr' = take i arr @ [arr ! m]"
    using tk at_i i len by (simp add: take_Suc_conv_app_nth)
  have dset: "set (drop i arr') = set (drop i arr)"
  proof -
    have "mset (drop i arr') = mset (drop i arr)"
      unfolding arr'_def using 1(2,3) i by (intro mset_drop_swap_elems) simp_all
    then show ?thesis by (rule mset_eq_setD)
  qed
  have min: "\<forall>y\<in>set (drop i arr). key (arr ! m) \<le> key y"
  proof
    fix y assume "y \<in> set (drop i arr)"
    from in_set_drop_nth[OF this] obtain p where "i \<le> p" "p < length arr" "y = arr ! p" by blast
    with 1(4) show "key (arr ! m) \<le> key y" by simp
  qed
  have mem: "arr ! m \<in> set (drop i arr)"
    using 1(2,3) by (rule nth_in_set_drop)
  have s1: "sorted (map key (take (Suc i) arr'))"
    unfolding tk1 using srt sep mem by (auto simp: sorted_append)
  have sub: "set (drop (Suc i) arr') \<subseteq> set (drop i arr')"
    by (simp add: set_drop_subset_set_drop)
  have s2: "\<forall>x\<in>set (take (Suc i) arr'). \<forall>y\<in>set (drop (Suc i) arr'). key x \<le> key y"
  proof (intro ballI)
    fix x y assume x: "x \<in> set (take (Suc i) arr')" and y: "y \<in> set (drop (Suc i) arr')"
    from y sub dset have y': "y \<in> set (drop i arr)" by blast
    from x tk1 have "x \<in> set (take i arr) \<or> x = arr ! m" by auto
    then show "key x \<le> key y"
    proof
      assume "x \<in> set (take i arr)"
      with sep y' show ?thesis by blast
    next
      assume "x = arr ! m"
      with min y' show ?thesis by blast
    qed
  qed
  from out len ms s1 s2 show ?thesis by blast
qed

lemma selection_outer_fold:
  assumes gt: "gt_by key c"
  shows "m \<le> length xs \<Longrightarrow>
    \<exists>arr anims. fold (selection_outer c) [0..<m] (xs, []) = (arr, anims) \<and>
      length arr = length xs \<and> mset arr = mset xs \<and>
      sorted (map key (take m arr)) \<and>
      (\<forall>x\<in>set (take m arr). \<forall>y\<in>set (drop m arr). key x \<le> key y)"
proof (induction m)
  case 0
  show ?case by simp
next
  case (Suc m)
  from Suc.prems have "m \<le> length xs" by simp
  from Suc.IH[OF this] obtain arr anims where 1:
    "fold (selection_outer c) [0..<m] (xs, []) = (arr, anims)"
    "length arr = length xs" "mset arr = mset xs"
    "sorted (map key (take m arr))"
    "\<forall>x\<in>set (take m arr). \<forall>y\<in>set (drop m arr). key x \<le> key y"
    by blast
  have m': "m < length arr" using Suc.prems 1(2) by simp
  from selection_outer_pass[OF gt m' 1(4) 1(5), of anims] obtain arr' anims' where 2:
    "selection_outer c m (arr, anims) = (arr', anims')"
    "length arr' = length arr" "mset arr' = mset arr"
    "sorted (map key (take (Suc m) arr'))"
    "\<forall>x\<in>set (take (Suc m) arr'). \<forall>y\<in>set (drop (Suc m) arr'). key x \<le> key y"
    by blast
  have "fold (selection_outer c) [0..<Suc m] (xs, []) = (arr', anims')"
    using 1(1) 2(1) by simp
  moreover have "length arr' = length xs" using 1(2) 2(2) by simp
  moreover have "mset arr' = mset xs" using 1(3) 2(3) by simp
  ultimately show ?case using 2(4,5) by blast
qed

lemma selectionSort_sorts:
  assumes gt: "gt_by key (shouldUpdateMinIndex val ord)"
  shows "mset (finalArray (selectionSort val xs ord)) = mset xs \<and>
         sorted (map key (finalArray (selectionSort val xs ord)))"
proof -
  from selection_outer_fold[OF gt order_refl, of xs] obtain arr anims where 1:
    "fold (selection_outer (shouldUpdateMinIndex val ord)) [0..<length xs] (xs, []) = (arr, anims)"
    "length arr = length xs" "mset arr = mset xs"
    "sorted (map key (take (length xs) arr))"
    by blast
  from 1(2,4) have "sorted (map key arr)" by simp
  with 1(1,3) show ?thesis by (simp add: selectionSort_def)
qed

subsection \<open>insertionSort\<close>

text \<open>
  The while loop moves the elements after the key one position to the right, from
  position \<open>j1 - 1\<close> down to the position \<open>j'\<close> where it stops.
\<close>

lemma insertion_while_result:
  "j1 < length arr \<Longrightarrow> insertion_while c x i j1 (arr, anims) = (j', arr', anims') \<Longrightarrow>
   j' \<le> j1 \<and> length arr' = length arr \<and>
   (\<forall>p<length arr. arr' ! p = (if j' < p \<and> p \<le> j1 then arr ! (p - 1) else arr ! p)) \<and>
   (\<forall>p. j' \<le> p \<and> p < j1 \<longrightarrow> c (arr ! p) x) \<and>
   (j' = 0 \<or> \<not> c (arr ! (j' - 1)) x)"
proof (induction c x i j1 "(arr, anims)" arbitrary: arr anims rule: insertion_while.induct)
  case (1 c x i arr anims)
  then show ?case by simp
next
  case (2 c x i j arr anims)
  show ?case
  proof (cases "c (arr ! j) x")
    case False
    with 2(3) show ?thesis by auto
  next
    case True
    define arr2 where "arr2 = arr[j + 1 := arr ! j]"
    from 2(2) have j: "j < length arr2" "length arr2 = length arr" by (simp_all add: arr2_def)
    from 2(3) True have rec: "insertion_while c x i j
        (arr2, anims @ [anim Compare [int j, int i], anim Shift [int j, int j + 1]]) = (j', arr', anims')"
      by (simp add: arr2_def)
    from 2(1)[OF True j(1)[unfolded arr2_def] rec[unfolded arr2_def], folded arr2_def]
    have ih: "j' \<le> j" "length arr' = length arr2"
      "\<forall>p<length arr2. arr' ! p = (if j' < p \<and> p \<le> j then arr2 ! (p - 1) else arr2 ! p)"
      "\<forall>p. j' \<le> p \<and> p < j \<longrightarrow> c (arr2 ! p) x"
      "j' = 0 \<or> \<not> c (arr2 ! (j' - 1)) x"
      by blast+
    have nth2: "arr2 ! p = (if p = Suc j then arr ! j else arr ! p)" if "p < length arr" for p
      using that by (simp add: arr2_def nth_list_update)
    have a: "\<forall>p<length arr. arr' ! p = (if j' < p \<and> p \<le> Suc j then arr ! (p - 1) else arr ! p)"
    proof (intro allI impI)
      fix p assume p: "p < length arr"
      with ih(3) j(2) have e: "arr' ! p = (if j' < p \<and> p \<le> j then arr2 ! (p - 1) else arr2 ! p)"
        by simp
      show "arr' ! p = (if j' < p \<and> p \<le> Suc j then arr ! (p - 1) else arr ! p)"
      proof (cases "j' < p \<and> p \<le> j")
        case True
        with p have "p - 1 < length arr" "p - 1 \<noteq> Suc j" by linarith+
        with nth2[of "p - 1"] e True show ?thesis by simp
      next
        case False
        with e nth2[OF p] ih(1) show ?thesis by auto
      qed
    qed
    have b: "\<forall>p. j' \<le> p \<and> p < Suc j \<longrightarrow> c (arr ! p) x"
    proof (intro allI impI)
      fix p assume p: "j' \<le> p \<and> p < Suc j"
      show "c (arr ! p) x"
      proof (cases "p = j")
        case True
        with \<open>c (arr ! j) x\<close> show ?thesis by simp
      next
        case False
        with p have pj: "j' \<le> p \<and> p < j" by simp
        with ih(4) have "c (arr2 ! p) x" by blast
        moreover from pj 2(2) have "p < length arr" "p \<noteq> Suc j" by linarith+
        ultimately show ?thesis using nth2[of p] by simp
      qed
    qed
    have d: "j' = 0 \<or> \<not> c (arr ! (j' - 1)) x"
    proof (cases "j' = 0")
      case True then show ?thesis by simp
    next
      case False
      with ih(5) have "\<not> c (arr2 ! (j' - 1)) x" by simp
      moreover from ih(1) 2(2) False have "j' - 1 < length arr" "j' - 1 \<noteq> Suc j" by linarith+
      ultimately show ?thesis using nth2[of "j' - 1"] by simp
    qed
    from ih(1,2) j(2) a b d show ?thesis by simp
  qed
qed


text \<open>
  In list form: the sorted front \<open>A @ B\<close> followed by the key becomes \<open>A @ [key] @ B\<close>,
  where every element of \<open>B\<close> is after the key and no element of \<open>A\<close> is.
\<close>

lemma insertion_outer_step:
  assumes gt: "gt_by key c" and i: "i < length arr" and srt: "sorted (map key (take i arr))"
  shows "\<exists>A B anims'. take i arr = A @ B \<and>
      insertion_outer c i (arr, anims) = (A @ [arr ! i] @ B @ drop (Suc i) arr, anims') \<and>
      (\<forall>b\<in>set B. key (arr ! i) < key b) \<and> (\<forall>a\<in>set A. key a \<le> key (arr ! i))"
proof -
  define x where "x = arr ! i"
  obtain j' arr1 anims1 where w:
    "insertion_while c x i i (arr, anims @ [anim Mark_key [int i]]) = (j', arr1, anims1)"
    by (metis prod_cases3)
  from insertion_while_result[OF i w]
  have r: "j' \<le> i" "length arr1 = length arr"
    "\<forall>p<length arr. arr1 ! p = (if j' < p \<and> p \<le> i then arr ! (p - 1) else arr ! p)"
    "\<forall>p. j' \<le> p \<and> p < i \<longrightarrow> c (arr ! p) x"
    "j' = 0 \<or> \<not> c (arr ! (j' - 1)) x"
    by blast+
  define A where "A = take j' arr"
  define B where "B = drop j' (take i arr)"
  have AB: "take i arr = A @ B"
  proof -
    have "take j' (take i arr) = take j' arr" using r(1) by (simp add: min_def)
    then show ?thesis unfolding A_def B_def by (metis append_take_drop_id)
  qed
  have lenA: "length A = j'" using r(1) i by (simp add: A_def)
  have lenB: "length B = i - j'" using i by (simp add: B_def)
  have nthB: "B ! q = arr ! (j' + q)" if "q < i - j'" for q
    using that i by (simp add: B_def)
  have res: "arr1[j' := x] = A @ [x] @ B @ drop (Suc i) arr"
  proof (rule nth_equalityI)
    show "length (arr1[j' := x]) = length (A @ [x] @ B @ drop (Suc i) arr)"
      using r(1,2) i lenA lenB by simp
  next
    fix p assume "p < length (arr1[j' := x])"
    then have p: "p < length arr" using r(2) by simp
    consider "p < j'" | "p = j'" | "j' < p" "p \<le> i" | "i < p" by linarith
    then show "arr1[j' := x] ! p = (A @ [x] @ B @ drop (Suc i) arr) ! p"
    proof cases
      case 1
      with r(3) p have "arr1 ! p = arr ! p" by simp
      with 1 p r(2) show ?thesis by (simp add: nth_append lenA A_def)
    next
      case 2
      with p r(2) show ?thesis by (simp add: nth_append lenA)
    next
      case 3
      with r(3) p have "arr1 ! p = arr ! (p - 1)" by simp
      moreover from 3 have "B ! (p - j' - 1) = arr ! (j' + (p - j' - 1))"
        by (intro nthB) linarith
      moreover from 3 have "j' + (p - j' - 1) = p - 1" by linarith
      moreover from 3 have "p - Suc j' < i - j'" by linarith
      ultimately show ?thesis using 3 p r(2)
        by (simp add: nth_append lenA lenB)
    next
      case 4
      with r(3) p have "arr1 ! p = arr ! p" by simp
      moreover from 4 r(1) have "p - j' - 1 - (i - j') = p - Suc i" by linarith
      moreover from 4 r(1) have "\<not> p - j' - 1 < i - j'" by linarith
      ultimately show ?thesis using 4 p r(1,2)
        by (simp add: nth_append lenA lenB)
    qed
  qed
  have out: "insertion_outer c i (arr, anims) =
      (A @ [arr ! i] @ B @ drop (Suc i) arr,
       anims1 @ [anim Place [int j', int i], anim Reset_key [int j', int i]])"
    using w res by (simp add: insertion_outer_def x_def)
  have gB: "\<forall>b\<in>set B. key (arr ! i) < key b"
  proof
    fix b assume "b \<in> set B"
    then obtain q where q: "q < length B" "b = B ! q" by (auto simp: in_set_conv_nth)
    with lenB have "b = arr ! (j' + q)" "j' \<le> j' + q \<and> j' + q < i" by (simp_all add: nthB)
    with r(4) have "c b x" by blast
    with gt show "key (arr ! i) < key b" by (simp add: gt_by_def x_def)
  qed
  have lA: "\<forall>a\<in>set A. key a \<le> key (arr ! i)"
  proof
    fix a assume "a \<in> set A"
    then obtain q where q: "q < j'" "a = arr ! q"
      using lenA by (auto simp: in_set_conv_nth A_def)
    with r(5) have nc: "\<not> c (arr ! (j' - 1)) x" by auto
    with gt have le: "key (arr ! (j' - 1)) \<le> key (arr ! i)" by (simp add: gt_by_def x_def)
    from q r(1) i have "q \<le> j' - 1" "j' - 1 < length (map key (take i arr))" by simp_all
    from sorted_nth_mono[OF srt this] q r(1) i
    have "key (arr ! q) \<le> key (arr ! (j' - 1))" by simp
    with le q show "key a \<le> key (arr ! i)" by simp
  qed
  from AB out gB lA show ?thesis by blast
qed

text \<open>
  A step of the outer loop keeps the order in which the elements of any one key
  follow each other, and it makes the sorted front one position longer.
\<close>

lemma insertion_outer_pass:
  assumes gt: "gt_by key c" and i: "i < length arr" and srt: "sorted (map key (take i arr))"
  shows "\<exists>arr' anims'. insertion_outer c i (arr, anims) = (arr', anims') \<and>
      length arr' = length arr \<and> mset arr' = mset arr \<and>
      (\<forall>k. filter (\<lambda>y. key y = k) arr' = filter (\<lambda>y. key y = k) arr) \<and>
      sorted (map key (take (Suc i) arr'))"
proof -
  from insertion_outer_step[OF gt i srt, of anims] obtain A B anims' where 1:
    "take i arr = A @ B"
    "insertion_outer c i (arr, anims) = (A @ [arr ! i] @ B @ drop (Suc i) arr, anims')"
    "\<forall>b\<in>set B. key (arr ! i) < key b" "\<forall>a\<in>set A. key a \<le> key (arr ! i)"
    by blast
  define R where "R = drop (Suc i) arr"
  define x where "x = arr ! i"
  have arr: "arr = A @ B @ [x] @ R"
  proof -
    have "arr = take i arr @ arr ! i # drop (Suc i) arr"
      using i by (simp add: id_take_nth_drop[symmetric])
    then show ?thesis using 1(1) by (simp add: R_def x_def)
  qed
  define arr' where "arr' = A @ [x] @ B @ R"
  have len: "length arr' = length arr" by (subst arr) (simp add: arr'_def)
  have ms: "mset arr' = mset arr" by (subst arr) (simp add: arr'_def)
  have fB: "filter (\<lambda>y. key y = key x) B = []"
    using 1(3) by (auto simp: filter_empty_conv x_def)
  have st: "filter (\<lambda>y. key y = k) arr' = filter (\<lambda>y. key y = k) arr" for k
  proof (cases "k = key x")
    case True
    with fB show ?thesis by (subst arr) (simp add: arr'_def)
  next
    case False
    then show ?thesis by (subst arr) (auto simp: arr'_def)
  qed
  have iA: "length (A @ [x] @ B) = Suc i"
  proof -
    have "length (A @ B) = i" using 1(1)[symmetric] i by simp
    then show ?thesis by simp
  qed
  have tk: "take (Suc i) arr' = A @ [x] @ B"
    unfolding arr'_def using iA by (metis append.assoc append_eq_conv_conj)
  have sAB: "sorted (map key (A @ B))" using srt 1(1) by simp
  have s: "sorted (map key (A @ [x] @ B))"
    using sAB 1(3,4) by (auto simp: sorted_append x_def)
  from 1(2) len ms st tk s show ?thesis
    by (auto simp: arr'_def x_def R_def)
qed

lemma insertion_outer_fold:
  assumes gt: "gt_by key c"
  shows "1 \<le> m \<Longrightarrow> m \<le> length xs \<Longrightarrow>
    \<exists>arr anims. fold (insertion_outer c) [1..<m] (xs, []) = (arr, anims) \<and>
      length arr = length xs \<and> mset arr = mset xs \<and>
      (\<forall>k. filter (\<lambda>y. key y = k) arr = filter (\<lambda>y. key y = k) xs) \<and>
      sorted (map key (take m arr))"
proof (induction m)
  case 0
  then show ?case by simp
next
  case (Suc m)
  show ?case
  proof (cases "m = 0")
    case True
    have "sorted (map key (take (Suc 0) xs))" by (cases xs) simp_all
    with True show ?thesis by simp
  next
    case False
    then have "1 \<le> m" by simp
    moreover from Suc.prems have "m \<le> length xs" by simp
    ultimately obtain arr anims where 1:
      "fold (insertion_outer c) [1..<m] (xs, []) = (arr, anims)"
      "length arr = length xs" "mset arr = mset xs"
      "\<forall>k. filter (\<lambda>y. key y = k) arr = filter (\<lambda>y. key y = k) xs"
      "sorted (map key (take m arr))"
      using Suc.IH by blast
    have m': "m < length arr" using Suc.prems 1(2) by simp
    from insertion_outer_pass[OF gt m' 1(5), of anims] obtain arr' anims' where 2:
      "insertion_outer c m (arr, anims) = (arr', anims')"
      "length arr' = length arr" "mset arr' = mset arr"
      "\<forall>k. filter (\<lambda>y. key y = k) arr' = filter (\<lambda>y. key y = k) arr"
      "sorted (map key (take (Suc m) arr'))"
      by blast
    have "fold (insertion_outer c) [1..<Suc m] (xs, []) = (arr', anims')"
      using 1(1) 2(1) \<open>1 \<le> m\<close> by simp
    moreover have "length arr' = length xs" using 1(2) 2(2) by simp
    moreover have "mset arr' = mset xs" using 1(3) 2(3) by simp
    moreover have "\<forall>k. filter (\<lambda>y. key y = k) arr' = filter (\<lambda>y. key y = k) xs"
      using 1(4) 2(4) by simp
    ultimately show ?thesis using 2(5) by blast
  qed
qed

lemma insertionSort_sorts_stably:
  assumes gt: "gt_by key (shouldShift val ord)"
  shows "mset (finalArray (insertionSort val xs ord)) = mset xs \<and>
         sorted (map key (finalArray (insertionSort val xs ord))) \<and>
         (\<forall>k. filter (\<lambda>y. key y = k) (finalArray (insertionSort val xs ord)) =
               filter (\<lambda>y. key y = k) xs)"
proof (cases "xs = []")
  case True
  then show ?thesis by (simp add: insertionSort_def)
next
  case False
  then have "1 \<le> length xs" by (cases xs) simp_all
  from insertion_outer_fold[OF gt this order_refl] obtain arr anims where 1:
    "fold (insertion_outer (shouldShift val ord)) [1..<length xs] (xs, []) = (arr, anims)"
    "length arr = length xs" "mset arr = mset xs"
    "\<forall>k. filter (\<lambda>y. key y = k) arr = filter (\<lambda>y. key y = k) xs"
    "sorted (map key (take (length xs) arr))"
    by blast
  from 1(2,5) have "sorted (map key arr)" by simp
  with 1(1,3,4) show ?thesis by (simp add: insertionSort_def)
qed

subsection \<open>quickSort\<close>

text \<open>A permutation that moves positions \<open>low, ..., high\<close> only keeps the elements of that range.\<close>

lemma range_elems_preserved:
  assumes len: "length arr' = length arr" and ms: "mset arr' = mset arr"
    and out: "\<forall>p<length arr. p < low \<or> high < p \<longrightarrow> arr' ! p = arr ! p"
    and p: "low \<le> p" "p \<le> high" "p < length arr"
  shows "\<exists>q. low \<le> q \<and> q \<le> high \<and> q < length arr \<and> arr' ! p = arr ! q"
proof -
  have tk: "take low arr' = take low arr"
    using len out by (intro nth_equalityI) auto
  have dr: "drop (Suc high) arr' = drop (Suc high) arr"
    using len out by (intro nth_equalityI) auto
  have dec: "xs = take low xs @ take (Suc high - low) (drop low xs) @ drop (Suc high) xs"
    if "low \<le> Suc high" for xs :: "'a list"
  proof -
    have "drop low xs = take (Suc high - low) (drop low xs) @ drop (Suc high - low) (drop low xs)"
      by (rule append_take_drop_id[symmetric])
    moreover have "drop (Suc high - low) (drop low xs) = drop (Suc high) xs"
      using that by simp
    ultimately show ?thesis by (metis append_take_drop_id)
  qed
  from p have lh: "low \<le> Suc high" by simp
  have "mset arr' = mset (take low arr') + mset (take (Suc high - low) (drop low arr')) +
                     mset (drop (Suc high) arr')"
    using dec[OF lh, of arr'] by (metis mset_append add.assoc)
  moreover have "mset arr = mset (take low arr) + mset (take (Suc high - low) (drop low arr)) +
                     mset (drop (Suc high) arr)"
    using dec[OF lh, of arr] by (metis mset_append add.assoc)
  ultimately have "mset (take (Suc high - low) (drop low arr')) =
                   mset (take (Suc high - low) (drop low arr))"
    using ms tk dr by simp
  then have st: "set (take (Suc high - low) (drop low arr')) =
                 set (take (Suc high - low) (drop low arr))"
    by (rule mset_eq_setD)
  have pl: "p - low < length arr - low" "p - low < Suc high - low" "low + (p - low) = p"
    using p by linarith+
  have "arr' ! p = take (Suc high - low) (drop low arr') ! (p - low)"
    using p len pl by simp
  moreover have "p - low < length (take (Suc high - low) (drop low arr'))"
    using len pl by simp
  ultimately have "arr' ! p \<in> set (take (Suc high - low) (drop low arr'))"
    by (metis nth_mem)
  with st have "arr' ! p \<in> set (take (Suc high - low) (drop low arr))" by simp
  then obtain r where r: "r < length (take (Suc high - low) (drop low arr))"
    "arr' ! p = take (Suc high - low) (drop low arr) ! r"
    by (auto simp: in_set_conv_nth)
  then have "r < Suc high - low" "low + r < length arr" "arr' ! p = arr ! (low + r)"
    by auto
  then show ?thesis by (intro exI[of _ "low + r"]) auto
qed


text \<open>
  The loop of \<^verbatim>\<open>partition\<close> up to position \<open>b\<close>: the positions from \<open>low\<close> up to \<open>i1\<close> hold
  elements that are not after the pivot, the positions from \<open>i1\<close> up to \<open>b\<close> elements
  that are.
\<close>

lemma partition_fold:
  assumes le: "le_by key c" and hi: "high < length arr"
  shows "low \<le> b \<Longrightarrow> b \<le> high \<Longrightarrow>
    \<exists>arr' i1 anims'. fold (partition_step c pv high) [low..<b] (arr, low, anims) = (arr', i1, anims') \<and>
      low \<le> i1 \<and> i1 \<le> b \<and> length arr' = length arr \<and> mset arr' = mset arr \<and>
      (\<forall>p<length arr. p < low \<or> b \<le> p \<longrightarrow> arr' ! p = arr ! p) \<and>
      (\<forall>p. low \<le> p \<and> p < i1 \<longrightarrow> key (arr' ! p) \<le> key pv) \<and>
      (\<forall>p. i1 \<le> p \<and> p < b \<longrightarrow> key pv < key (arr' ! p))"
proof (induction b)
  case 0
  then show ?case by simp
next
  case (Suc b)
  show ?case
  proof (cases "low \<le> b")
    case False
    with Suc.prems have "low = Suc b" by simp
    then show ?thesis by simp
  next
    case True
    from Suc.prems have "b \<le> high" by simp
    from Suc.IH[OF True this] obtain arr1 i1 anims1 where 1:
      "fold (partition_step c pv high) [low..<b] (arr, low, anims) = (arr1, i1, anims1)"
      "low \<le> i1" "i1 \<le> b" "length arr1 = length arr" "mset arr1 = mset arr"
      "\<forall>p<length arr. p < low \<or> b \<le> p \<longrightarrow> arr1 ! p = arr ! p"
      "\<forall>p. low \<le> p \<and> p < i1 \<longrightarrow> key (arr1 ! p) \<le> key pv"
      "\<forall>p. i1 \<le> p \<and> p < b \<longrightarrow> key pv < key (arr1 ! p)"
      by blast
    have app: "[low..<Suc b] = [low..<b] @ [b]" using True by simp
    from Suc.prems hi 1(3,4) have bl: "b < length arr1" "i1 < length arr1" by simp_all
    show ?thesis
    proof (cases "c pv (arr1 ! b)")
      case False
      with le have gtp: "key pv < key (arr1 ! b)" by (simp add: le_by_def not_le)
      have "fold (partition_step c pv high) [low..<Suc b] (arr, low, anims) =
          (arr1, i1, anims1 @ [anim Compare [int b, int high], anim Reset_compare [int b, int high]])"
        unfolding app using 1(1) False by (simp add: partition_step_def)
      moreover have "\<forall>p<length arr. p < low \<or> Suc b \<le> p \<longrightarrow> arr1 ! p = arr ! p"
        using 1(6) by auto
      moreover have "\<forall>p. i1 \<le> p \<and> p < Suc b \<longrightarrow> key pv < key (arr1 ! p)"
        using 1(8) gtp by (auto simp: less_Suc_eq)
      moreover have "i1 \<le> Suc b" using 1(3) by simp
      ultimately show ?thesis using 1(2,4,5,7) by blast
    next
      case True
      with le have lep: "key (arr1 ! b) \<le> key pv" by (simp add: le_by_def)
      define arr2 where "arr2 = swap_elems arr1 i1 b"
      have nth2: "arr2 ! p = (if p = b then arr1 ! i1 else if p = i1 then arr1 ! b else arr1 ! p)"
        if "p < length arr" for p
        unfolding arr2_def using bl that 1(4) by (simp add: nth_swap_elems)
      have "fold (partition_step c pv high) [low..<Suc b] (arr, low, anims) =
          (arr2, i1 + 1, anims1 @ [anim Compare [int b, int high], anim Swap [int i1, int b],
                                  anim Reset_compare [int b, int high]])"
        unfolding app using 1(1) True by (simp add: partition_step_def arr2_def)
      moreover have "length arr2 = length arr" using 1(4) by (simp add: arr2_def)
      moreover have "mset arr2 = mset arr"
        unfolding arr2_def using bl 1(5) by (simp add: mset_swap_elems)
      moreover have "\<forall>p<length arr. p < low \<or> Suc b \<le> p \<longrightarrow> arr2 ! p = arr ! p"
      proof (intro allI impI)
        fix p assume p: "p < length arr" "p < low \<or> Suc b \<le> p"
        with 1(2,3) have "p \<noteq> b" "p \<noteq> i1" by auto
        with nth2[OF p(1)] have "arr2 ! p = arr1 ! p" by simp
        moreover from p 1(6) have "arr1 ! p = arr ! p" by auto
        ultimately show "arr2 ! p = arr ! p" by simp
      qed
      moreover have "\<forall>p. low \<le> p \<and> p < i1 + 1 \<longrightarrow> key (arr2 ! p) \<le> key pv"
      proof (intro allI impI)
        fix p assume p: "low \<le> p \<and> p < i1 + 1"
        with bl 1(3,4) have pl: "p < length arr" by simp
        show "key (arr2 ! p) \<le> key pv"
        proof (cases "p = i1")
          case True
          with nth2[OF pl] lep show ?thesis by auto
        next
          case False
          with p 1(3) have "p < i1" "p \<noteq> b" by simp_all
          with nth2[OF pl] 1(7) p show ?thesis by simp
        qed
      qed
      moreover have "\<forall>p. i1 + 1 \<le> p \<and> p < Suc b \<longrightarrow> key pv < key (arr2 ! p)"
      proof (intro allI impI)
        fix p assume p: "i1 + 1 \<le> p \<and> p < Suc b"
        with bl 1(4) have pl: "p < length arr" by simp
        show "key pv < key (arr2 ! p)"
        proof (cases "p = b")
          case True
          with p have "i1 \<le> i1 \<and> i1 < b" by simp
          with 1(8) have "key pv < key (arr1 ! i1)" by blast
          with nth2[OF pl] True show ?thesis by simp
        next
          case False
          with p have "i1 \<le> p \<and> p < b" "p \<noteq> i1" by simp_all
          with nth2[OF pl] False 1(8) show ?thesis by simp
        qed
      qed
      moreover have "low \<le> i1 + 1" "i1 + 1 \<le> Suc b" using 1(2,3) by simp_all
      ultimately show ?thesis by blast
    qed
  qed
qed

lemma quickSort_partition_correct:
  assumes le: "le_by key c" and lh: "low \<le> high" and hi: "high < length arr"
  shows "\<exists>pi arr' anims'. quickSort_partition c (arr, anims) low high = (pi, arr', anims') \<and>
      low \<le> pi \<and> pi \<le> high \<and> length arr' = length arr \<and> mset arr' = mset arr \<and>
      (\<forall>p<length arr. p < low \<or> high < p \<longrightarrow> arr' ! p = arr ! p) \<and>
      (\<forall>p. low \<le> p \<and> p < pi \<longrightarrow> key (arr' ! p) \<le> key (arr' ! pi)) \<and>
      (\<forall>p. pi < p \<and> p \<le> high \<longrightarrow> key (arr' ! pi) < key (arr' ! p))"
proof -
  define pv where "pv = arr ! high"
  from partition_fold[OF le hi lh order_refl, of pv "anims @ [anim Mark_pivot [int high]]"]
  obtain arr1 i1 anims1 where 1:
    "fold (partition_step c pv high) [low..<high] (arr, low, anims @ [anim Mark_pivot [int high]]) =
       (arr1, i1, anims1)"
    "low \<le> i1" "i1 \<le> high" "length arr1 = length arr" "mset arr1 = mset arr"
    "\<forall>p<length arr. p < low \<or> high \<le> p \<longrightarrow> arr1 ! p = arr ! p"
    "\<forall>p. low \<le> p \<and> p < i1 \<longrightarrow> key (arr1 ! p) \<le> key pv"
    "\<forall>p. i1 \<le> p \<and> p < high \<longrightarrow> key pv < key (arr1 ! p)"
    by blast
  define arr2 where "arr2 = swap_elems arr1 i1 high"
  from hi 1(3,4) have bl: "high < length arr1" "i1 < length arr1" by simp_all
  have nth2: "arr2 ! p = (if p = high then arr1 ! i1 else if p = i1 then arr1 ! high else arr1 ! p)"
    if "p < length arr" for p
    unfolding arr2_def using bl that 1(4) by (simp add: nth_swap_elems)
  have pvh: "arr1 ! high = pv" using 1(6) hi by (simp add: pv_def)
  have at_pi: "arr2 ! i1 = pv"
    using nth2[of i1] bl 1(4) pvh by auto
  have out: "quickSort_partition c (arr, anims) low high =
      (i1, arr2, anims1 @ [anim Swap [int i1, int high]] @ [anim Final_position [int i1]])"
    using 1(1) by (simp add: quickSort_partition_def pv_def arr2_def)
  have len: "length arr2 = length arr" using 1(4) by (simp add: arr2_def)
  have ms: "mset arr2 = mset arr"
    unfolding arr2_def using bl 1(5) by (simp add: mset_swap_elems)
  have outside: "\<forall>p<length arr. p < low \<or> high < p \<longrightarrow> arr2 ! p = arr ! p"
  proof (intro allI impI)
    fix p assume p: "p < length arr" "p < low \<or> high < p"
    with 1(2,3) lh have "p \<noteq> high" "p \<noteq> i1" by auto
    with nth2[OF p(1)] have "arr2 ! p = arr1 ! p" by simp
    moreover from p 1(6) have "arr1 ! p = arr ! p" by auto
    ultimately show "arr2 ! p = arr ! p" by simp
  qed
  have left: "\<forall>p. low \<le> p \<and> p < i1 \<longrightarrow> key (arr2 ! p) \<le> key (arr2 ! i1)"
  proof (intro allI impI)
    fix p assume p: "low \<le> p \<and> p < i1"
    with bl 1(3,4) have "p < length arr" "p \<noteq> high" "p \<noteq> i1" by simp_all
    with nth2[of p] have "arr2 ! p = arr1 ! p" by simp
    with 1(7) p at_pi show "key (arr2 ! p) \<le> key (arr2 ! i1)" by simp
  qed
  have right: "\<forall>p. i1 < p \<and> p \<le> high \<longrightarrow> key (arr2 ! i1) < key (arr2 ! p)"
  proof (intro allI impI)
    fix p assume p: "i1 < p \<and> p \<le> high"
    with hi have pl: "p < length arr" by simp
    show "key (arr2 ! i1) < key (arr2 ! p)"
    proof (cases "p = high")
      case True
      with p have "i1 \<le> i1 \<and> i1 < high" by simp
      with 1(8) have "key pv < key (arr1 ! i1)" by blast
      with nth2[OF pl] True at_pi show ?thesis by simp
    next
      case False
      with p have "i1 \<le> p \<and> p < high" "p \<noteq> i1" by simp_all
      with nth2[OF pl] False 1(8) at_pi show ?thesis by simp
    qed
  qed
  from out 1(2,3) len ms outside left right show ?thesis by blast
qed


declare quickSort_sort.simps [simp del]

lemma quickSort_sort_noop: "\<not> low < high \<Longrightarrow> quickSort_sort c s low high = s"
  by (simp add: quickSort_sort.simps[of c s low high])

lemma quickSort_sort_correct:
  assumes le: "le_by key c"
  shows "high < length (fst s) \<or> \<not> low < high \<Longrightarrow>
    same_outside (fst s) (fst (quickSort_sort c s low high)) low high \<and>
    sorted_range key (fst (quickSort_sort c s low high)) low high"
  using le
proof (induction c s low high rule: quickSort_sort.induct)
  case (1 c s low high)
  show ?case
  proof (cases "low < high")
    case False
    have "sorted_range key (fst s) low high"
      unfolding sorted_range_def
    proof (intro allI impI)
      fix p q assume "low \<le> p \<and> p \<le> q \<and> q \<le> high"
      with False have "p = q" by simp
      then show "key (fst s ! p) \<le> key (fst s ! q)" by simp
    qed
    with False show ?thesis
      by (simp add: quickSort_sort_noop same_outside_def)
  next
    case True
    with 1(3) have hi: "high < length (fst s)" by simp
    obtain arr anims where s: "s = (arr, anims)" by (cases s)
    from hi s have hi': "high < length arr" by simp
    from quickSort_partition_correct[OF 1(4) less_imp_le[OF True] hi', of anims] s
    obtain pi arr1 anims1 where p:
      "quickSort_partition c s low high = (pi, arr1, anims1)"
      "low \<le> pi" "pi \<le> high" "length arr1 = length arr" "mset arr1 = mset arr"
      "\<forall>p<length arr. p < low \<or> high < p \<longrightarrow> arr1 ! p = arr ! p"
      "\<forall>p. low \<le> p \<and> p < pi \<longrightarrow> key (arr1 ! p) \<le> key (arr1 ! pi)"
      "\<forall>p. pi < p \<and> p \<le> high \<longrightarrow> key (arr1 ! pi) < key (arr1 ! p)"
      by auto
    define s1 where "s1 = (arr1, anims1)"
    define s2 where "s2 = quickSort_sort c s1 low (pi - 1)"
    define s3 where "s3 = quickSort_sort c s2 (pi + 1) high"
    define arr2 where "arr2 = fst s2"
    define arr3 where "arr3 = fst s3"
    define n where "n = length arr"
    have res: "quickSort_sort c s low high = s3"
      using True p(1) by (simp add: quickSort_sort.simps[of c s low high] s1_def s2_def s3_def)
    have "pi - 1 < length arr1" using p(3,4) hi' by linarith
    then have c1: "pi - 1 < length (fst s1) \<or> \<not> low < pi - 1"
      by (simp add: s1_def)
    from 1(1)[OF True p(1)[symmetric, folded s1_def] c1 1(4)]
    have ih1: "same_outside arr1 arr2 low (pi - 1)" "sorted_range key arr2 low (pi - 1)"
      by (simp_all add: s2_def arr2_def s1_def)
    have n1: "length arr1 = n" "length arr2 = n"
      using p(4) ih1(1) by (simp_all add: n_def same_outside_def)
    have c2: "high < length (fst s2) \<or> \<not> pi + 1 < high"
      using n1(2) hi' by (simp add: arr2_def n_def)
    from 1(2)[OF True p(1)[symmetric, folded s1_def] c2[unfolded s2_def] 1(4)]
    have ih2: "same_outside arr2 arr3 (pi + 1) high" "sorted_range key arr3 (pi + 1) high"
      by (simp_all add: s3_def s2_def arr2_def arr3_def)
    have n3: "length arr3 = n"
      using ih2(1) n1(2) by (simp add: same_outside_def)
    have ms: "mset arr3 = mset arr"
      using ih1(1) ih2(1) p(5) by (simp add: same_outside_def)
    text \<open>What the left call leaves alone and what it keeps below the pivot.\<close>
    have F1: "arr2 ! q = arr1 ! q" if "q < n" "q < low \<or> pi \<le> q" for q
    proof (cases "low < pi - 1")
      case False
      then have "s2 = s1" by (simp add: s2_def quickSort_sort_noop)
      then show ?thesis by (simp add: arr2_def s1_def)
    next
      case True
      with that have "q < low \<or> pi - 1 < q" by linarith
      with ih1(1) that(1) n1(1) show ?thesis unfolding same_outside_def by blast
    qed
    have F2: "key (arr2 ! q) \<le> key (arr1 ! pi)" if "low \<le> q" "q < pi" for q
    proof (cases "low < pi - 1")
      case False
      then have "s2 = s1" by (simp add: s2_def quickSort_sort_noop)
      then have "arr2 = arr1" by (simp add: arr2_def s1_def)
      with p(7) that show ?thesis by simp
    next
      case True
      from that p(3) hi' have q: "q \<le> pi - 1" "q < length arr1" by (simp_all add: n1 n_def)
      from ih1(1) have "length arr2 = length arr1" "mset arr2 = mset arr1"
        "\<forall>p<length arr1. p < low \<or> pi - 1 < p \<longrightarrow> arr2 ! p = arr1 ! p"
        by (simp_all add: same_outside_def)
      from range_elems_preserved[OF this that(1) q]
      obtain r where "low \<le> r" "r \<le> pi - 1" "arr2 ! q = arr1 ! r" by blast
      moreover with True have "low \<le> r \<and> r < pi" by linarith
      ultimately show ?thesis using p(7) by simp
    qed
    have F3: "key (arr2 ! a) \<le> key (arr2 ! b)" if "low \<le> a" "a \<le> b" "b < pi" for a b
    proof -
      from that have "low \<le> a \<and> a \<le> b \<and> b \<le> pi - 1" by linarith
      with ih1(2) show ?thesis unfolding sorted_range_def by blast
    qed
    text \<open>The same for the right call.\<close>
    have G1: "arr3 ! q = arr2 ! q" if "q < n" "q \<le> pi \<or> high < q" for q
    proof -
      from that have "q < pi + 1 \<or> high < q" by linarith
      with ih2(1) that(1) n1(2) show ?thesis unfolding same_outside_def by blast
    qed
    have G2: "key (arr1 ! pi) < key (arr3 ! q)" if "pi < q" "q \<le> high" for q
    proof -
      from that hi' have q: "pi + 1 \<le> q" "q < length arr2" by (simp_all add: n1 n_def)
      from ih2(1) have "length arr3 = length arr2" "mset arr3 = mset arr2"
        "\<forall>p<length arr2. p < pi + 1 \<or> high < p \<longrightarrow> arr3 ! p = arr2 ! p"
        by (simp_all add: same_outside_def)
      from range_elems_preserved[OF this q(1) that(2) q(2)]
      obtain r where r: "pi + 1 \<le> r" "r \<le> high" "r < length arr2" "arr3 ! q = arr2 ! r" by blast
      then have "arr2 ! r = arr1 ! r" using F1[of r] n1(2) by simp
      moreover from r have "pi < r \<and> r \<le> high" by simp
      ultimately show ?thesis using p(8) r(4) by simp
    qed
    have piv: "arr3 ! pi = arr1 ! pi"
      using G1[of pi] F1[of pi] p(3) hi' by (simp add: n_def)
    have out: "same_outside arr arr3 low high"
      unfolding same_outside_def
    proof (intro conjI allI impI)
      show "length arr3 = length arr" using n3 by (simp add: n_def)
      show "mset arr3 = mset arr" by (rule ms)
    next
      fix q assume q: "q < length arr" "q < low \<or> high < q"
      with p(2,3) have "arr3 ! q = arr2 ! q" by (intro G1) (auto simp: n_def)
      also from q p(2,3) have "arr2 ! q = arr1 ! q" by (intro F1) (auto simp: n_def)
      also from q p(6) have "arr1 ! q = arr ! q" by blast
      finally show "arr3 ! q = arr ! q" .
    qed
    have below: "key (arr3 ! a) \<le> key (arr1 ! pi)" if "low \<le> a" "a \<le> pi" for a
    proof (cases "a = pi")
      case True
      with piv show ?thesis by simp
    next
      case False
      with that have a: "a < pi" by simp
      with p(3) hi' have "arr3 ! a = arr2 ! a" by (intro G1) (simp_all add: n_def)
      with F2[OF that(1) a] show ?thesis by simp
    qed
    have above: "key (arr1 ! pi) \<le> key (arr3 ! b)" if "pi \<le> b" "b \<le> high" for b
    proof (cases "b = pi")
      case True
      with piv show ?thesis by simp
    next
      case False
      with that have "pi < b" by simp
      from G2[OF this that(2)] show ?thesis by simp
    qed
    have srt: "sorted_range key arr3 low high"
      unfolding sorted_range_def
    proof (intro allI impI)
      fix a b assume ab: "low \<le> a \<and> a \<le> b \<and> b \<le> high"
      consider "b < pi" | "pi < a" | "a \<le> pi" "pi \<le> b" by linarith
      then show "key (arr3 ! a) \<le> key (arr3 ! b)"
      proof cases
        case 1
        with ab p(3) hi' have "arr3 ! a = arr2 ! a" "arr3 ! b = arr2 ! b"
          by (auto intro!: G1 simp: n_def)
        with F3[of a b] ab 1 show ?thesis by simp
      next
        case 2
        with ab have "pi + 1 \<le> a \<and> a \<le> b \<and> b \<le> high" by simp
        with ih2(2) show ?thesis unfolding sorted_range_def by blast
      next
        case 3
        with below[of a] above[of b] ab show ?thesis by simp
      qed
    qed
    from out srt show ?thesis
      unfolding res arr3_def by (simp add: s)
  qed
qed


lemma sorted_range_whole:
  assumes "sorted_range key arr 0 (length arr - 1)"
  shows "sorted (map key arr)"
  unfolding sorted_iff_nth_mono
proof (intro allI impI)
  fix i j assume ij: "i \<le> j" "j < length (map key arr)"
  then have "0 \<le> i \<and> i \<le> j \<and> j \<le> length arr - 1" by simp
  with assms have "key (arr ! i) \<le> key (arr ! j)" unfolding sorted_range_def by blast
  with ij show "map key arr ! i \<le> map key arr ! j" by simp
qed

lemma quickSort_sorts:
  assumes le: "le_by key (shouldPartition val ord)"
  shows "mset (finalArray (quickSort val xs ord)) = mset xs \<and>
         sorted (map key (finalArray (quickSort val xs ord)))"
proof -
  define s where "s = quickSort_sort (shouldPartition val ord) (xs, []) 0 (length xs - 1)"
  have "length xs - 1 < length (fst (xs, [])) \<or> \<not> 0 < length xs - 1" by (cases xs) simp_all
  from quickSort_sort_correct[OF le this]
  have 1: "same_outside xs (fst s) 0 (length xs - 1)" "sorted_range key (fst s) 0 (length xs - 1)"
    by (simp_all add: s_def)
  then have "length (fst s) = length xs" by (simp add: same_outside_def)
  with 1(2) have "sorted (map key (fst s))" by (intro sorted_range_whole) simp
  moreover from 1(1) have "mset (fst s) = mset xs" by (simp add: same_outside_def)
  moreover have "finalArray (quickSort val xs ord) = fst s"
    unfolding quickSort_def s_def[symmetric] by (cases s) simp
  ultimately show ?thesis by simp
qed

subsection \<open>mergeSort\<close>


declare merge_loop.simps [simp del]
declare mergeSort_sort.simps [simp del]

lemma mset_merge_lists: "mset (merge_lists c xs ys) = mset xs + mset ys"
  by (induction c xs ys rule: merge_lists.induct) auto

lemma set_merge_lists: "set (merge_lists c xs ys) = set xs \<union> set ys"
  by (induction c xs ys rule: merge_lists.induct) auto

lemma length_merge_lists: "length (merge_lists c xs ys) = length xs + length ys"
  by (induction c xs ys rule: merge_lists.induct) auto

lemma sorted_merge_lists:
  assumes gt: "gt_by key c"
  shows "sorted (map key xs) \<Longrightarrow> sorted (map key ys) \<Longrightarrow> sorted (map key (merge_lists c xs ys))"
  using gt
proof (induction c xs ys rule: merge_lists.induct)
  case (3 c x xs y ys)
  note c = 3(5)[unfolded gt_by_def, rule_format]
  show ?case
  proof (cases "c y x")
    case True
    then have lt: "key x < key y" by (simp add: c)
    from 3(3) have "\<forall>a\<in>set xs. key x \<le> key a" "sorted (map key xs)" by simp_all
    moreover from 3(4) lt have "\<forall>b\<in>set (y # ys). key x \<le> key b" by auto
    moreover from 3(1)[OF True _ 3(4) 3(5)] 3(3)
    have "sorted (map key (merge_lists c xs (y # ys)))" by simp
    ultimately show ?thesis using True
      by (auto simp: set_merge_lists)
  next
    case False
    then have le: "key y \<le> key x" by (simp add: c)
    from 3(4) have "\<forall>b\<in>set ys. key y \<le> key b" "sorted (map key ys)" by simp_all
    moreover from 3(3) le have "\<forall>a\<in>set (x # xs). key y \<le> key a" by auto
    moreover from 3(2)[OF False 3(3) _ 3(5)] 3(4)
    have "sorted (map key (merge_lists c (x # xs) ys))" by simp
    ultimately show ?thesis using False
      by (auto simp: set_merge_lists)
  qed
qed simp_all


text \<open>
  The first loop of \<^verbatim>\<open>merge\<close> and the two loops that copy the rest fill \<^verbatim>\<open>temp\<close> with
  the merge of the two runs.
\<close>

lemma merge_loop_temp:
  "merge_loop c arr m r (i, j, temp, anims) = (i', j', temp', anims') \<Longrightarrow>
   temp' @ map (\<lambda>p. arr ! p) [i'..<Suc m] @ map (\<lambda>p. arr ! p) [j'..<Suc r] =
   temp @ merge_lists c (map (\<lambda>p. arr ! p) [i..<Suc m]) (map (\<lambda>p. arr ! p) [j..<Suc r])"
proof (induction c arr m r "(i, j, temp, anims)" arbitrary: i j temp anims
    rule: merge_loop.induct)
  case (1 c arr m r i j temp anims)
  show ?case
  proof (cases "i \<le> m \<and> j \<le> r")
    case False
    with 1(3) have e: "i' = i" "j' = j" "temp' = temp"
      by (simp_all add: merge_loop.simps[of c arr m r i j temp anims])
    from False have "[i..<Suc m] = [] \<or> [j..<Suc r] = []" by auto
    then show ?thesis
    proof
      assume "[i..<Suc m] = []"
      then show ?thesis unfolding e by simp
    next
      assume "[j..<Suc r] = []"
      then show ?thesis unfolding e by (cases "map (\<lambda>p. arr ! p) [i..<Suc m]") simp_all
    qed
  next
    case True
    then have "[i..<Suc m] = i # [Suc i..<Suc m]" and "[j..<Suc r] = j # [Suc j..<Suc r]"
      by (simp_all add: upt_conv_Cons del: upt_Suc)
    then have ui: "map (\<lambda>p. arr ! p) [i..<Suc m] = arr ! i # map (\<lambda>p. arr ! p) [Suc i..<Suc m]"
      and uj: "map (\<lambda>p. arr ! p) [j..<Suc r] = arr ! j # map (\<lambda>p. arr ! p) [Suc j..<Suc r]"
      by (simp_all del: upt_Suc)
    show ?thesis
    proof (cases "c (arr ! j) (arr ! i)")
      case c: True
      from 1(3) True c have "merge_loop c arr m r
          (i + 1, j, temp @ [arr ! i],
           anims @ [anim Compare [int i, int j],
                    anim Reset_compare [int (i + 1) - 1, int j - 1]]) = (i', j', temp', anims')"
        by (simp add: merge_loop.simps[of c arr m r i j temp anims])
      from 1(1)[OF True c this]
      have "temp' @ map (\<lambda>p. arr ! p) [i'..<Suc m] @ map (\<lambda>p. arr ! p) [j'..<Suc r] =
            (temp @ [arr ! i]) @
            merge_lists c (map (\<lambda>p. arr ! p) [i + 1..<Suc m]) (map (\<lambda>p. arr ! p) [j..<Suc r])" .
      also have "\<dots> = temp @
            merge_lists c (map (\<lambda>p. arr ! p) [i..<Suc m]) (map (\<lambda>p. arr ! p) [j..<Suc r])"
        using c by (simp add: ui uj del: upt_Suc)
      finally show ?thesis .
    next
      case c: False
      from 1(3) True c have "merge_loop c arr m r
          (i, j + 1, temp @ [arr ! j],
           anims @ [anim Compare [int i, int j],
                    anim Reset_compare [int i - 1, int (j + 1) - 1]]) = (i', j', temp', anims')"
        by (simp add: merge_loop.simps[of c arr m r i j temp anims])
      from 1(2)[OF True c this]
      have "temp' @ map (\<lambda>p. arr ! p) [i'..<Suc m] @ map (\<lambda>p. arr ! p) [j'..<Suc r] =
            (temp @ [arr ! j]) @
            merge_lists c (map (\<lambda>p. arr ! p) [i..<Suc m]) (map (\<lambda>p. arr ! p) [j + 1..<Suc r])" .
      also have "\<dots> = temp @
            merge_lists c (map (\<lambda>p. arr ! p) [i..<Suc m]) (map (\<lambda>p. arr ! p) [j..<Suc r])"
        using c by (simp add: ui uj del: upt_Suc)
      finally show ?thesis .
    qed
  qed
qed

text \<open>The loop that writes \<^verbatim>\<open>temp\<close> back puts it in the place of the positions it covers.\<close>

lemma write_back:
  "k \<le> length temp \<Longrightarrow> l + k \<le> length arr \<Longrightarrow>
   fst (fold (\<lambda>i (arr, anims). (arr[i := temp ! (i - l)], anims @ [f i (temp ! (i - l))]))
          [l..<l + k] (arr, anims)) =
   take l arr @ take k temp @ drop (l + k) arr"
proof (induction k)
  case 0
  show ?case by simp
next
  case (Suc k)
  define s where "s = fold (\<lambda>i (arr, anims). (arr[i := temp ! (i - l)], anims @ [f i (temp ! (i - l))]))
          [l..<l + k] (arr, anims)"
  from Suc have ih: "fst s = take l arr @ take k temp @ drop (l + k) arr"
    by (simp add: s_def)
  have dr: "drop (l + k) arr = arr ! (l + k) # drop (Suc (l + k)) arr"
    using Suc.prems by (simp add: Cons_nth_drop_Suc)
  have lt: "length (take l arr) = l" "length (take k temp) = k"
    using Suc.prems by simp_all
  have "fst (fold (\<lambda>i (arr, anims). (arr[i := temp ! (i - l)], anims @ [f i (temp ! (i - l))]))
          [l..<l + Suc k] (arr, anims)) = (fst s)[l + k := temp ! k]"
    by (cases s) (simp add: s_def[symmetric])
  also have "\<dots> = take l arr @ take k temp @ (temp ! k # drop (Suc (l + k)) arr)"
    unfolding ih dr using lt by (simp add: list_update_append)
  also have "\<dots> = take l arr @ take (Suc k) temp @ drop (l + Suc k) arr"
    using Suc.prems by (simp add: take_Suc_conv_app_nth)
  finally show ?case .
qed

lemma map_nth_upt_mid: "r < length arr \<Longrightarrow> map (\<lambda>p. arr ! p) [l..<Suc r] = mid arr l r"
  unfolding mid_def by (rule nth_equalityI) (simp_all del: upt_Suc)

lemma mergeSort_merge_result:
  assumes "l \<le> Suc m" "m \<le> r" "r < length arr"
  shows "fst (mergeSort_merge c val (arr, anims) l m r) =
         take l arr @ merge_lists c (mid arr l m) (mid arr (Suc m) r) @ drop (Suc r) arr"
proof -
  obtain i' j' temp' anims' where lp:
    "merge_loop c arr m r (l, m + 1, [], anims) = (i', j', temp', anims')"
    by (metis prod_cases4)
  define temp where "temp = temp' @ map (\<lambda>i. arr ! i) [i'..<m + 1] @ map (\<lambda>j. arr ! j) [j'..<r + 1]"
  have mr: "m < length arr" using assms by simp
  from merge_loop_temp[OF lp]
  have t: "temp = merge_lists c (mid arr l m) (mid arr (Suc m) r)"
    unfolding temp_def by (simp add: map_nth_upt_mid[OF assms(3)] map_nth_upt_mid[OF mr] del: upt_Suc)
  have len: "length temp = Suc r - l"
    using assms by (simp add: t length_merge_lists mid_def)
  have k: "Suc r - l \<le> length temp" "l + (Suc r - l) \<le> length arr" "l + (Suc r - l) = Suc r"
    using assms len by simp_all
  have "fst (mergeSort_merge c val (arr, anims) l m r) =
        fst (fold (\<lambda>i (arr, anims). (arr[i := temp ! (i - l)],
                     anims @ [anim Overwrite [int i, val (temp ! (i - l))]]))
               [l..<l + (Suc r - l)] (arr, anims'))"
    using lp by (simp add: mergeSort_merge_def temp_def k(3) Let_def del: upt_Suc)
  also have "\<dots> = take l arr @ take (Suc r - l) temp @ drop (l + (Suc r - l)) arr"
    using write_back[OF k(1,2), of "\<lambda>i v. anim Overwrite [int i, val v]" anims'] by simp
  also have "\<dots> = take l arr @ temp @ drop (Suc r) arr"
    using len k(3) by simp
  finally show ?thesis by (simp add: t)
qed


lemma mid_split:
  assumes "l \<le> Suc m" "m \<le> r" "r < length xs"
  shows "mid xs l r = mid xs l m @ mid xs (Suc m) r"
proof -
  have "take (Suc r) xs = take (Suc m) xs @ take (r - m) (drop (Suc m) xs)"
    using assms(2) take_add[of "Suc m" "r - m" xs] by simp
  moreover have "drop (Suc m) (take (Suc r) xs) = take (r - m) (drop (Suc m) xs)"
    using assms(2) by (simp add: drop_take)
  moreover have "length (take (Suc m) xs) = Suc m"
    using assms(2,3) by simp
  ultimately show ?thesis
    unfolding mid_def using assms(1) by simp
qed

lemma take_of_parts: "length a = l \<Longrightarrow> take l (a @ b) = a"
  by simp

lemma drop_of_parts: "length a + length b = n \<Longrightarrow> drop n (a @ b @ d) = d"
  by (induction a arbitrary: n) auto

lemma mid_cong_take: "take (Suc m) xs = take (Suc m) ys \<Longrightarrow> mid xs l m = mid ys l m"
  by (simp add: mid_def)

lemma mid_cong_drop:
  assumes "drop (Suc m) xs = drop (Suc m) ys"
  shows "mid xs (Suc m) r = mid ys (Suc m) r"
  unfolding mid_def by (simp add: drop_take assms)

lemma take_cong_le:
  assumes "take n xs = take n ys" "l \<le> n"
  shows "take l xs = take l ys"
proof -
  have "take l xs = take l (take n xs)" using assms(2) by (simp add: min_def)
  also have "\<dots> = take l (take n ys)" by (simp only: assms(1))
  also have "\<dots> = take l ys" using assms(2) by (simp add: min_def)
  finally show ?thesis .
qed

lemma drop_cong_ge:
  assumes "drop n xs = drop n ys" "n \<le> k"
  shows "drop k xs = drop k ys"
proof -
  have "drop k xs = drop (k - n) (drop n xs)" using assms(2) by simp
  also have "\<dots> = drop (k - n) (drop n ys)" by (simp only: assms(1))
  also have "\<dots> = drop k ys" using assms(2) by simp
  finally show ?thesis .
qed

lemma mid_of_parts:
  assumes "length a = l" "length b = Suc r - l" "l \<le> Suc r"
  shows "mid (a @ b @ d) l r = b"
  unfolding mid_def using assms by simp

lemma length_mid: "r < length xs \<Longrightarrow> length (mid xs l r) = Suc r - l"
  by (simp add: mid_def)

text \<open>
  \<^verbatim>\<open>sort(arr, l, r)\<close> of mergeSort leaves the array outside \<open>l, ..., r\<close> as it was and
  puts the run at \<open>l, ..., r\<close> in the order of the keys.
\<close>

lemma mergeSort_sort_correct:
  assumes gt: "gt_by key c"
  shows "l \<le> r \<Longrightarrow> r < length (fst s) \<Longrightarrow>
    length (fst (mergeSort_sort c val s l r)) = length (fst s) \<and>
    take l (fst (mergeSort_sort c val s l r)) = take l (fst s) \<and>
    drop (Suc r) (fst (mergeSort_sort c val s l r)) = drop (Suc r) (fst s) \<and>
    mset (mid (fst (mergeSort_sort c val s l r)) l r) = mset (mid (fst s) l r) \<and>
    sorted (map key (mid (fst (mergeSort_sort c val s l r)) l r))"
  using gt
proof (induction c val s l r rule: mergeSort_sort.induct)
  case (1 c val s l r)
  show ?case
  proof (cases "l < r")
    case False
    with 1(3) have lr: "l = r" by simp
    have e: "mergeSort_sort c val s l r = s"
      using False by (simp add: mergeSort_sort.simps[of c val s l r])
    have "length (mid (fst s) l r) \<le> 1"
      unfolding lr mid_def by simp
    then have "sorted (map key (mid (fst s) l r))"
      by (cases "mid (fst s) l r") simp_all
    then show ?thesis unfolding e by simp
  next
    case True
    define m where "m = l + (r - l) div 2"
    have lm: "l \<le> m" and mr: "m < r" using True by (simp_all add: m_def)
    define s1 where "s1 = mergeSort_sort c val s l m"
    define s2 where "s2 = mergeSort_sort c val s1 (m + 1) r"
    define arr where "arr = fst s"
    define arr1 where "arr1 = fst s1"
    define arr2 where "arr2 = fst s2"
    have m1: "m < length (fst s)" using mr 1(4) by simp
    from 1(1)[OF True m_def lm m1 1(5)]
    have A: "length arr1 = length arr" "take l arr1 = take l arr"
      "drop (Suc m) arr1 = drop (Suc m) arr"
      "mset (mid arr1 l m) = mset (mid arr l m)" "sorted (map key (mid arr1 l m))"
      unfolding s1_def[symmetric] arr1_def arr_def by simp_all
    have r1: "r < length (fst (mergeSort_sort c val s l m))"
      using A(1) 1(4) unfolding arr1_def arr_def s1_def by simp
    have "m + 1 \<le> r" using mr by simp
    from 1(2)[OF True m_def this r1 1(5)]
    have B: "length arr2 = length arr1" "take (Suc m) arr2 = take (Suc m) arr1"
      "drop (Suc r) arr2 = drop (Suc r) arr1"
      "mset (mid arr2 (Suc m) r) = mset (mid arr1 (Suc m) r)"
      "sorted (map key (mid arr2 (Suc m) r))"
      unfolding s1_def[symmetric] s2_def[symmetric] arr2_def arr1_def by simp_all
    define res where "res = merge_lists c (mid arr2 l m) (mid arr2 (Suc m) r)"
    have r2: "r < length arr2" using B(1) A(1) 1(4) by (simp add: arr_def)
    have e: "mergeSort_sort c val s l r = mergeSort_merge c val s2 l m r"
      using True by (simp add: mergeSort_sort.simps[of c val s l r] m_def s1_def s2_def Let_def)
    have "fst (mergeSort_merge c val (arr2, snd s2) l m r) =
          take l arr2 @ res @ drop (Suc r) arr2"
      unfolding res_def using lm mr r2 by (intro mergeSort_merge_result) simp_all
    then have out: "fst (mergeSort_sort c val s l r) = take l arr2 @ res @ drop (Suc r) arr2"
      unfolding e arr2_def by simp
    have m2l: "mid arr2 l m = mid arr1 l m" by (rule mid_cong_take[OF B(2)])
    have m1r: "mid arr1 (Suc m) r = mid arr (Suc m) r" by (rule mid_cong_drop[OF A(3)])
    have lres: "length res = Suc r - l"
      using lm mr r2 by (simp add: res_def length_merge_lists length_mid)
    have ltake: "length (take l arr2) = l" using lm mr r2 by simp
    have t2: "take l arr2 = take l arr"
      using take_cong_le[OF B(2), of l] lm A(2) by simp
    have d2: "drop (Suc r) arr2 = drop (Suc r) arr"
      using drop_cong_ge[OF A(3), of "Suc r"] mr B(3) by simp
    have midres: "mid (take l arr2 @ res @ drop (Suc r) arr2) l r = res"
      using lm mr by (intro mid_of_parts[OF ltake lres]) simp
    have "mset res = mset (mid arr l m) + mset (mid arr (Suc m) r)"
      by (simp add: res_def mset_merge_lists m2l A(4) B(4) m1r)
    also have "\<dots> = mset (mid arr l r)"
      using mid_split[of l m r arr] lm mr 1(4) by (simp add: arr_def)
    finally have ms: "mset res = mset (mid arr l r)" .
    have so: "sorted (map key res)"
      unfolding res_def using 1(5) A(5) B(5) by (intro sorted_merge_lists) (simp_all add: m2l)
    have len: "length (take l arr2 @ res @ drop (Suc r) arr2) = length arr"
      using lres lm mr r2 B(1) A(1) by simp
    have tk: "take l (take l arr2 @ res @ drop (Suc r) arr2) = take l arr"
      unfolding take_of_parts[OF ltake] by (rule t2)
    have "length (take l arr2) + length res = Suc r"
      unfolding ltake lres using lm mr by simp
    then have dr: "drop (Suc r) (take l arr2 @ res @ drop (Suc r) arr2) = drop (Suc r) arr"
      unfolding d2 by (rule drop_of_parts)
    show ?thesis
      unfolding out midres tk dr arr_def[symmetric]
      using len ms so by simp
  qed
qed

lemma mid_whole: "xs \<noteq> [] \<Longrightarrow> mid xs 0 (length xs - Suc 0) = xs"
  by (simp add: mid_def)

lemma mergeSort_sorts:
  assumes gt: "gt_by key (shouldSwap val ord)"
  shows "mset (finalArray (mergeSort val xs ord)) = mset xs \<and>
         sorted (map key (finalArray (mergeSort val xs ord)))"
proof (cases "xs = []")
  case True
  have "mergeSort_sort (shouldSwap val ord) val ([], []) 0 0 = ([], [])"
    by (simp add: mergeSort_sort.simps[of _ _ _ 0 0])
  then show ?thesis using True by (simp add: mergeSort_def)
next
  case False
  define s where "s = mergeSort_sort (shouldSwap val ord) val (xs, []) 0 (length xs - 1)"
  have r: "length xs - 1 < length (fst (xs, []::animation list))" using False by simp
  from mergeSort_sort_correct[where val = val and l = 0, OF gt _ r]
  have "length (fst s) = length xs" "mset (mid (fst s) 0 (length xs - 1)) = mset xs"
    "sorted (map key (mid (fst s) 0 (length xs - 1)))"
    unfolding s_def[symmetric] using False by (simp_all add: mid_whole)
  moreover from this(1) False have "mid (fst s) 0 (length xs - 1) = fst s"
    by (simp add: mid_def)
  ultimately have "mset (fst s) = mset xs \<and> sorted (map key (fst s))" by simp
  then show ?thesis unfolding mergeSort_def s_def[symmetric] by (cases s) simp
qed

subsection \<open>heapSort\<close>


declare heapify.simps [simp del]

text \<open>
  \<^verbatim>\<open>heapify(arr, n, i)\<close> sifts the element at \<open>i\<close> down: when every position from \<open>lo\<close>
  on but \<open>i\<close> is in order with its children, and the children of \<open>i\<close> are in order
  with the parent of \<open>i\<close>, every position from \<open>lo\<close> on is in order afterwards.
\<close>

lemma heapify_correct:
  assumes gt: "gt_by key c"
  shows "i < n \<Longrightarrow> n \<le> length arr \<Longrightarrow> lo \<le> i \<Longrightarrow>
    (\<forall>p. lo \<le> p \<and> p \<noteq> i \<longrightarrow> heap_node key arr n p) \<Longrightarrow>
    (\<forall>p ch. lo \<le> p \<and> (i = 2 * p + 1 \<or> i = 2 * p + 2) \<and> (ch = 2 * i + 1 \<or> ch = 2 * i + 2) \<and> ch < n
        \<longrightarrow> key (arr ! ch) \<le> key (arr ! p)) \<Longrightarrow>
    same_outside arr (fst (heapify c n i (arr, anims))) i (n - 1) \<and>
    (\<forall>p. lo \<le> p \<longrightarrow> heap_node key (fst (heapify c n i (arr, anims))) n p)"
  using gt
proof (induction c n i "(arr, anims)" arbitrary: arr anims rule: heapify.induct)
  case (1 c n i arr anims)
  note c = 1(7)[unfolded gt_by_def, rule_format]
  note H1 = 1(5)[rule_format]
  note H2 = 1(6)[rule_format]
  define l where "l = 2 * i + 1"
  define r where "r = 2 * i + 2"
  define L1 where "L1 = (if l < n \<and> c (arr ! l) (arr ! i) then l else i)"
  define L where "L = (if r < n \<and> c (arr ! r) (arr ! L1) then r else L1)"
  have unf: "heapify c n i (arr, anims) =
      (if L \<noteq> i then heapify c n L (swap_elems arr i L,
           anims @ [anim Compare [int i, int L], anim Swap [int i, int L]])
       else (arr, anims))"
    by (simp add: heapify.simps[of c n i arr anims] Let_def l_def r_def L1_def L_def)
  show ?case
  proof (cases "L = i")
    case True
    have ri: "r \<noteq> i" "l \<noteq> i" by (simp_all add: r_def l_def)
    from True ri have L1i: "L1 = i" and nr: "\<not> (r < n \<and> c (arr ! r) (arr ! L1))"
      unfolding L_def by (simp_all split: if_splits)
    from L1i ri have nl: "\<not> (l < n \<and> c (arr ! l) (arr ! i))"
      unfolding L1_def by (simp split: if_splits)
    have "heap_node key arr n i"
      unfolding heap_node_def using nl nr L1i c by (auto simp: l_def r_def)
    with H1 have "\<forall>p. lo \<le> p \<longrightarrow> heap_node key arr n p" by blast
    moreover have "same_outside arr arr i (n - 1)" by (simp add: same_outside_def)
    ultimately show ?thesis using True by (simp add: unf)
  next
    case False
    have Lch: "L = l \<or> L = r" using False unfolding L_def L1_def by (simp split: if_splits)
    have Ln: "L < n" using False unfolding L_def L1_def by (simp split: if_splits)
    have big: "key (arr ! i) < key (arr ! L)"
      using False c unfolding L_def L1_def by (auto split: if_splits)
    have ol: "l < n \<Longrightarrow> key (arr ! l) \<le> key (arr ! L)"
      using False c unfolding L_def L1_def by (auto split: if_splits)
    have or: "r < n \<Longrightarrow> key (arr ! r) \<le> key (arr ! L)"
      using False c unfolding L_def L1_def by (auto split: if_splits)
    have iL: "i < L" using Lch by (auto simp: l_def r_def)
    define arr2 where "arr2 = swap_elems arr i L"
    have il: "i < length arr" "L < length arr" using 1(2,3) Ln by simp_all
    have nth2: "arr2 ! p = (if p = L then arr ! i else if p = i then arr ! L else arr ! p)"
      if "p < length arr" for p
      unfolding arr2_def using nth_swap_elems[OF il that] .
    have len2: "length arr2 = length arr" by (simp add: arr2_def)
    have ms2: "mset arr2 = mset arr" unfolding arr2_def by (rule mset_swap_elems[OF il])
    have A: "\<forall>p. lo \<le> p \<and> p \<noteq> L \<longrightarrow> heap_node key arr2 n p"
    proof (intro allI impI)
      fix p assume p: "lo \<le> p \<and> p \<noteq> L"
      show "heap_node key arr2 n p"
      proof (cases "p = i")
        case True
        have a2i: "arr2 ! i = arr ! L" using nth2[OF il(1)] iL by simp
        have "key (arr2 ! l) \<le> key (arr ! L)" if "l < n"
        proof (cases "l = L")
          case True
          then show ?thesis using nth2[OF il(2)] big by simp
        next
          case False
          have "l < length arr" using that 1(3) by simp
          from nth2[OF this] False have "arr2 ! l = arr ! l" by (simp add: l_def)
          then show ?thesis using ol[OF that] by simp
        qed
        moreover have "key (arr2 ! r) \<le> key (arr ! L)" if "r < n"
        proof (cases "r = L")
          case True
          then show ?thesis using nth2[OF il(2)] big by simp
        next
          case False
          have "r < length arr" using that 1(3) by simp
          from nth2[OF this] False have "arr2 ! r = arr ! r" by (simp add: r_def)
          then show ?thesis using or[OF that] by simp
        qed
        ultimately show ?thesis
          unfolding heap_node_def True a2i l_def[symmetric] r_def[symmetric] by blast
      next
        case False
        have hn: "heap_node key arr n p" using H1 p False by blast
        have ch: "key (arr2 ! ch) \<le> key (arr2 ! p)"
          if ch: "ch = 2 * p + 1 \<or> ch = 2 * p + 2" "ch < n" for ch
        proof -
          have pl: "p < length arr" "ch < length arr" using ch 1(3) by auto
          have a2p: "arr2 ! p = arr ! p" using nth2[OF pl(1)] p False by simp
          have chL: "ch \<noteq> L" using ch(1) Lch False by (auto simp: l_def r_def)
          show ?thesis
          proof (cases "ch = i")
            case True
            have "arr2 ! ch = arr ! L" using nth2[OF pl(2)] True iL by simp
            moreover have "key (arr ! L) \<le> key (arr ! p)"
              using H2[of p L] p ch(1) True Lch Ln by (auto simp: l_def r_def)
            ultimately show ?thesis by (simp add: a2p)
          next
            case False
            have "arr2 ! ch = arr ! ch" using nth2[OF pl(2)] False chL by simp
            moreover have "key (arr ! ch) \<le> key (arr ! p)"
              using hn ch unfolding heap_node_def by auto
            ultimately show ?thesis by (simp add: a2p)
          qed
        qed
        show ?thesis unfolding heap_node_def using ch by blast
      qed
    qed
    have B: "\<forall>p ch. lo \<le> p \<and> (L = 2 * p + 1 \<or> L = 2 * p + 2) \<and>
               (ch = 2 * L + 1 \<or> ch = 2 * L + 2) \<and> ch < n
        \<longrightarrow> key (arr2 ! ch) \<le> key (arr2 ! p)"
    proof (intro allI impI)
      fix p ch
      assume h: "lo \<le> p \<and> (L = 2 * p + 1 \<or> L = 2 * p + 2) \<and>
               (ch = 2 * L + 1 \<or> ch = 2 * L + 2) \<and> ch < n"
      then have pi: "p = i" using Lch by (auto simp: l_def r_def)
      have chl: "ch < length arr" "ch \<noteq> L" "ch \<noteq> i" using h iL 1(3) by auto
      have "arr2 ! ch = arr ! ch" using nth2[OF chl(1)] chl by simp
      moreover have "arr2 ! p = arr ! L" using nth2[OF il(1)] iL pi by simp
      moreover have "heap_node key arr n L" using H1[of L] 1(4) iL by simp
      then have "key (arr ! ch) \<le> key (arr ! L)" unfolding heap_node_def using h by auto
      ultimately show "key (arr2 ! ch) \<le> key (arr2 ! p)" by simp
    qed
    have n2: "n \<le> length arr2" using 1(3) len2 by simp
    have loL: "lo \<le> L" using 1(4) iL by simp
    from 1(1)[OF l_def r_def refl L1_def L_def False Ln n2[unfolded arr2_def] loL
        A[unfolded arr2_def] B[unfolded arr2_def] 1(7)]
    have IH: "same_outside arr2 (fst (heapify c n i (arr, anims))) L (n - 1)"
      "\<forall>p. lo \<le> p \<longrightarrow> heap_node key (fst (heapify c n i (arr, anims))) n p"
      using False by (simp_all add: unf arr2_def)
    define arr' where "arr' = fst (heapify c n i (arr, anims))"
    have so: "length arr' = length arr" "mset arr' = mset arr"
      using IH(1) len2 ms2 unfolding same_outside_def arr'_def by simp_all
    have so3: "arr' ! p = arr2 ! p" if "p < length arr" "p < L \<or> n - 1 < p" for p
    proof -
      from IH(1) have "\<forall>p<length arr2. p < L \<or> n - 1 < p \<longrightarrow> arr' ! p = arr2 ! p"
        unfolding same_outside_def arr'_def by blast
      with that len2 show ?thesis by metis
    qed
    have "arr' ! p = arr ! p" if "p < length arr" "p < i \<or> n - 1 < p" for p
    proof -
      have "p < L \<or> n - 1 < p" using that(2) iL by auto
      from so3[OF that(1) this] have "arr' ! p = arr2 ! p" .
      moreover have "p \<noteq> i" "p \<noteq> L" using that(2) iL Ln 1(2) by auto
      ultimately show ?thesis using nth2[OF that(1)] by simp
    qed
    then have "same_outside arr arr' i (n - 1)"
      unfolding same_outside_def using so(1,2) by blast
    then show ?thesis using IH(2) unfolding arr'_def by blast
  qed
qed


text \<open>In a heap no element is after the root.\<close>

lemma heap_root_max:
  assumes "\<forall>p. heap_node key arr n p"
  shows "p < n \<Longrightarrow> key (arr ! p) \<le> key (arr ! 0)"
proof (induction p rule: less_induct)
  case (less p)
  show ?case
  proof (cases "p = 0")
    case True
    then show ?thesis by simp
  next
    case False
    define q where "q = (p - 1) div 2"
    have q: "q < p" "p = 2 * q + 1 \<or> p = 2 * q + 2" using False unfolding q_def by presburger+
    from assms have "heap_node key arr n q" by blast
    with q(2) less.prems have "key (arr ! p) \<le> key (arr ! q)"
      unfolding heap_node_def by auto
    moreover have "key (arr ! q) \<le> key (arr ! 0)"
      using less.IH[OF q(1)] q(1) less.prems by simp
    ultimately show ?thesis by simp
  qed
qed

lemma rev_upt_last: "k < m \<Longrightarrow> rev [k..<m] = rev [Suc k..<m] @ [k]"
  by (simp add: upt_conv_Cons del: upt_Suc)

text \<open>The first loop of heapSort builds a heap of the whole array.\<close>

lemma heap_build:
  assumes gt: "gt_by key c"
  shows "k \<le> length arr div 2 \<Longrightarrow>
    length (fst (fold (\<lambda>i s. heapify c (length arr) i s) (rev [k..<length arr div 2]) (arr, anims)))
      = length arr \<and>
    mset (fst (fold (\<lambda>i s. heapify c (length arr) i s) (rev [k..<length arr div 2]) (arr, anims)))
      = mset arr \<and>
    (\<forall>p. k \<le> p \<longrightarrow> heap_node key
       (fst (fold (\<lambda>i s. heapify c (length arr) i s) (rev [k..<length arr div 2]) (arr, anims)))
       (length arr) p)"
proof (induction "length arr div 2 - k" arbitrary: k)
  case 0
  then have k: "k = length arr div 2" by simp
  have "heap_node key arr (length arr) p" if "k \<le> p" for p
    unfolding heap_node_def using that k by auto
  then show ?case by (simp add: k)
next
  case (Suc d)
  then have km: "k < length arr div 2" by simp
  define s1 where "s1 = fold (\<lambda>i s. heapify c (length arr) i s) (rev [Suc k..<length arr div 2]) (arr, anims)"
  obtain arr1 anims1 where s1: "s1 = (arr1, anims1)" by (cases s1)
  have "d = length arr div 2 - Suc k" "Suc k \<le> length arr div 2" using Suc(2) km by simp_all
  from Suc(1)[OF this]
  have ih: "length arr1 = length arr" "mset arr1 = mset arr"
    "\<forall>p. Suc k \<le> p \<longrightarrow> heap_node key arr1 (length arr) p"
    unfolding s1_def[symmetric] s1 by simp_all
  have e: "fold (\<lambda>i s. heapify c (length arr) i s) (rev [k..<length arr div 2]) (arr, anims) =
           heapify c (length arr) k (arr1, anims1)"
    unfolding rev_upt_last[OF km] by (simp add: s1_def[symmetric] s1)
  have kn: "k < length arr" using km by simp
  have n1: "length arr \<le> length arr1" using ih(1) by simp
  have H1: "\<forall>p. k \<le> p \<and> p \<noteq> k \<longrightarrow> heap_node key arr1 (length arr) p"
    using ih(3) by auto
  have H2: "\<forall>p ch. k \<le> p \<and> (k = 2 * p + 1 \<or> k = 2 * p + 2) \<and>
        (ch = 2 * k + 1 \<or> ch = 2 * k + 2) \<and> ch < length arr
        \<longrightarrow> key (arr1 ! ch) \<le> key (arr1 ! p)"
    by auto
  from heapify_correct[OF gt kn n1 le_refl H1 H2, of anims1]
  have "same_outside arr1 (fst (heapify c (length arr) k (arr1, anims1))) k (length arr - 1)"
       "\<forall>p. k \<le> p \<longrightarrow> heap_node key (fst (heapify c (length arr) k (arr1, anims1))) (length arr) p"
    by blast+
  then show ?case unfolding e same_outside_def using ih(1,2) by simp
qed

text \<open>
  The second loop of heapSort: when the positions below \<open>Suc k\<close> are a heap, the
  positions from \<open>Suc k\<close> on are in order and none of them is before a position of the
  heap, one extraction leaves the same with \<open>k\<close> for \<open>Suc k\<close>.
\<close>

lemma heap_extract_step:
  assumes gt: "gt_by key c"
    and k: "0 < k" "k < length arr"
    and heap: "\<forall>p. heap_node key arr (Suc k) p"
    and srt: "sorted_range key arr (Suc k) (length arr - 1)"
    and sep: "\<forall>p q. p < Suc k \<and> Suc k \<le> q \<and> q < length arr \<longrightarrow> key (arr ! p) \<le> key (arr ! q)"
  shows "length (fst (heap_extract c k (arr, anims))) = length arr \<and>
    mset (fst (heap_extract c k (arr, anims))) = mset arr \<and>
    (\<forall>p. heap_node key (fst (heap_extract c k (arr, anims))) k p) \<and>
    sorted_range key (fst (heap_extract c k (arr, anims))) k (length arr - 1) \<and>
    (\<forall>p q. p < k \<and> k \<le> q \<and> q < length arr
       \<longrightarrow> key (fst (heap_extract c k (arr, anims)) ! p) \<le> key (fst (heap_extract c k (arr, anims)) ! q))"
proof -
  define arrs where "arrs = swap_elems arr 0 k"
  define arr' where "arr' = fst (heap_extract c k (arr, anims))"
  have z: "0 < length arr" using k by linarith
  have nths: "arrs ! p = (if p = k then arr ! 0 else if p = 0 then arr ! k else arr ! p)"
    if "p < length arr" for p
    unfolding arrs_def using nth_swap_elems[OF z k(2) that] .
  have lens: "length arrs = length arr" by (simp add: arrs_def)
  have mss: "mset arrs = mset arr" unfolding arrs_def by (rule mset_swap_elems[OF z k(2)])
  have e: "arr' = fst (heapify c k 0 (arrs, anims @ [anim Swap [0, int k], anim Final_position [int k]]))"
    by (simp add: arr'_def heap_extract_def arrs_def)
  have H1: "\<forall>p. 0 \<le> p \<and> p \<noteq> 0 \<longrightarrow> heap_node key arrs k p"
  proof (intro allI impI)
    fix p :: nat assume p: "0 \<le> p \<and> p \<noteq> 0"
    have hn: "heap_node key arr (Suc k) p" using heap by blast
    have "key (arrs ! ch) \<le> key (arrs ! p)" if ch: "ch = 2 * p + 1 \<or> ch = 2 * p + 2" "ch < k" for ch
    proof -
      have "ch < length arr" "p < length arr" "ch \<noteq> k" "ch \<noteq> 0" "p \<noteq> k" "p \<noteq> 0"
        using ch k p by auto
      then have "arrs ! ch = arr ! ch" "arrs ! p = arr ! p" using nths by simp_all
      moreover have "key (arr ! ch) \<le> key (arr ! p)"
        using hn ch unfolding heap_node_def by auto
      ultimately show ?thesis by simp
    qed
    then show "heap_node key arrs k p" unfolding heap_node_def by blast
  qed
  have H2: "\<forall>p ch. 0 \<le> p \<and> (0 = 2 * p + 1 \<or> 0 = 2 * p + 2) \<and>
        (ch = 2 * 0 + 1 \<or> ch = 2 * 0 + 2) \<and> ch < k
        \<longrightarrow> key (arrs ! ch) \<le> key (arrs ! p)"
    by auto
  have kl: "k \<le> length arrs" using k lens by simp
  from heapify_correct[OF gt k(1) kl le_refl H1 H2,
      of "anims @ [anim Swap [0, int k], anim Final_position [int k]]"]
  have so: "same_outside arrs arr' 0 (k - 1)" and hp: "\<forall>p. heap_node key arr' k p"
    unfolding e by simp_all
  have len': "length arr' = length arrs" and ms': "mset arr' = mset arrs"
    and out: "\<forall>p<length arrs. p < 0 \<or> k - 1 < p \<longrightarrow> arr' ! p = arrs ! p"
    using so unfolding same_outside_def by blast+
  have hi: "arr' ! q = (if q = k then arr ! 0 else arr ! q)" if "k \<le> q" "q < length arr" for q
  proof -
    have "arr' ! q = arrs ! q" using out that k lens by auto
    then show ?thesis using nths[OF that(2)] that(1) k(1) by auto
  qed
  have lo: "\<exists>p'. p' < Suc k \<and> arr' ! p = arr ! p'" if "p < k" for p
  proof -
    have "0 \<le> p" "p \<le> k - 1" "p < length arrs" using that k lens by simp_all
    from range_elems_preserved[OF len' ms' out this]
    obtain p' where p': "p' \<le> k - 1" "p' < length arrs" "arr' ! p = arrs ! p'" by blast
    then have "p' < length arr" "p' \<noteq> k" using lens k by auto
    with nths[of p'] p'(3) have "arr' ! p = (if p' = 0 then arr ! k else arr ! p')" by simp
    moreover have "p' < Suc k" "k < Suc k" using p'(1) k(1) by linarith+
    ultimately show ?thesis by (cases "p' = 0") auto
  qed
  have root: "key (arr ! p) \<le> key (arr ! 0)" if "p < Suc k" for p
    using heap_root_max[OF heap that] .
  have S: "sorted_range key arr' k (length arr - 1)"
    unfolding sorted_range_def
  proof (intro allI impI)
    fix p q assume h: "k \<le> p \<and> p \<le> q \<and> q \<le> length arr - 1"
    then have pq: "k \<le> p" "p < length arr" "k \<le> q" "q < length arr" using k by auto
    show "key (arr' ! p) \<le> key (arr' ! q)"
    proof (cases "p = k")
      case True
      show ?thesis
      proof (cases "q = k")
        case True
        with \<open>p = k\<close> show ?thesis by simp
      next
        case False
        then have "Suc k \<le> q" using pq by simp
        with sep pq have "key (arr ! 0) \<le> key (arr ! q)" by auto
        then show ?thesis using hi[OF pq(1,2)] hi[OF pq(3,4)] True False by simp
      qed
    next
      case False
      then have "Suc k \<le> p \<and> p \<le> q \<and> q \<le> length arr - 1" using h by simp
      with srt have "key (arr ! p) \<le> key (arr ! q)" unfolding sorted_range_def by blast
      moreover have "q \<noteq> k" using False h by simp
      ultimately show ?thesis using hi[OF pq(1,2)] hi[OF pq(3,4)] False by simp
    qed
  qed
  have P: "\<forall>p q. p < k \<and> k \<le> q \<and> q < length arr \<longrightarrow> key (arr' ! p) \<le> key (arr' ! q)"
  proof (intro allI impI)
    fix p q assume h: "p < k \<and> k \<le> q \<and> q < length arr"
    then obtain p' where p': "p' < Suc k" "arr' ! p = arr ! p'" using lo by blast
    show "key (arr' ! p) \<le> key (arr' ! q)"
    proof (cases "q = k")
      case True
      then show ?thesis using hi[of q] h p' root[OF p'(1)] by simp
    next
      case False
      then have "p' < Suc k \<and> Suc k \<le> q \<and> q < length arr" using h p'(1) by simp
      with sep have "key (arr ! p') \<le> key (arr ! q)" by blast
      then show ?thesis using hi[of q] h p'(2) False by simp
    qed
  qed
  show ?thesis
    unfolding arr'_def[symmetric] using len' ms' lens mss hp S P by simp
qed


lemma heap_extract_fold:
  assumes gt: "gt_by key c"
    and heap: "\<forall>p. heap_node key arr (length arr) p"
  shows "0 < k \<Longrightarrow> k \<le> length arr \<Longrightarrow>
    length (fst (fold (heap_extract c) (rev [k..<length arr]) (arr, anims))) = length arr \<and>
    mset (fst (fold (heap_extract c) (rev [k..<length arr]) (arr, anims))) = mset arr \<and>
    (\<forall>p. heap_node key (fst (fold (heap_extract c) (rev [k..<length arr]) (arr, anims))) k p) \<and>
    sorted_range key (fst (fold (heap_extract c) (rev [k..<length arr]) (arr, anims))) k
      (length arr - 1) \<and>
    (\<forall>p q. p < k \<and> k \<le> q \<and> q < length arr \<longrightarrow>
       key (fst (fold (heap_extract c) (rev [k..<length arr]) (arr, anims)) ! p)
       \<le> key (fst (fold (heap_extract c) (rev [k..<length arr]) (arr, anims)) ! q))"
proof (induction "length arr - k" arbitrary: k)
  case 0
  then have k: "k = length arr" by simp
  have "\<not> (k \<le> p \<and> p \<le> q \<and> q \<le> length arr - 1)" for p q
    using k 0(2) by linarith
  then have "sorted_range key arr k (length arr - 1)"
    unfolding sorted_range_def by blast
  then show ?case using heap by (simp add: k)
next
  case (Suc d)
  then have kn: "k < length arr" by simp
  define s1 where "s1 = fold (heap_extract c) (rev [Suc k..<length arr]) (arr, anims)"
  obtain arr1 anims1 where s1: "s1 = (arr1, anims1)" by (cases s1)
  have "d = length arr - Suc k" "0 < Suc k" "Suc k \<le> length arr" using Suc(2) kn by simp_all
  from Suc(1)[OF this]
  have ih: "length arr1 = length arr" "mset arr1 = mset arr"
    "\<forall>p. heap_node key arr1 (Suc k) p"
    "sorted_range key arr1 (Suc k) (length arr - 1)"
    "\<forall>p q. p < Suc k \<and> Suc k \<le> q \<and> q < length arr \<longrightarrow> key (arr1 ! p) \<le> key (arr1 ! q)"
    unfolding s1_def[symmetric] s1 by simp_all
  have e: "fold (heap_extract c) (rev [k..<length arr]) (arr, anims) =
           heap_extract c k (arr1, anims1)"
    unfolding rev_upt_last[OF kn] by (simp add: s1_def[symmetric] s1)
  have kn1: "k < length arr1" using kn ih(1) by simp
  from heap_extract_step[OF gt Suc(3) kn1 ih(3) ih(4)[folded ih(1)] ih(5)[folded ih(1)], of anims1]
  show ?case unfolding e ih(1) ih(2) .
qed

lemma heapSort_sorts:
  assumes gt: "gt_by key (shouldHeapify val ord)"
  shows "mset (finalArray (heapSort val xs ord)) = mset xs \<and>
         sorted (map key (finalArray (heapSort val xs ord)))"
proof (cases "xs = []")
  case True
  then show ?thesis by (simp add: heapSort_def)
next
  case False
  define c where "c = shouldHeapify val ord"
  define s0 where "s0 = fold (\<lambda>i s. heapify c (length xs) i s) (rev [0..<length xs div 2])
                          (xs, []::animation list)"
  obtain arr0 anims0 where s0: "s0 = (arr0, anims0)" by (cases s0)
  define s where "s = fold (heap_extract c) (rev [Suc 0..<length xs]) s0"
  obtain arr anims where s: "s = (arr, anims)" by (cases s)
  have out: "finalArray (heapSort val xs ord) = arr"
    by (simp add: heapSort_def c_def[symmetric] s0_def[symmetric] s_def[symmetric] s Let_def)
  from heap_build[OF gt[folded c_def], of 0 xs "[]"]
  have b: "length arr0 = length xs" "mset arr0 = mset xs"
    "\<forall>p. heap_node key arr0 (length arr0) p"
    unfolding s0_def[symmetric] s0 by simp_all
  have k: "0 < (1::nat)" "1 \<le> length arr0" using False b(1) by (simp_all add: Suc_leI)
  have se: "fold (heap_extract c) (rev [Suc 0..<length xs]) (arr0, anims0) = (arr, anims)"
    using s unfolding s_def s0 .
  from heap_extract_fold[OF gt[folded c_def] b(3) k, of anims0]
  have r: "length arr = length xs" "mset arr = mset xs"
    "sorted_range key arr 1 (length xs - 1)"
    "\<forall>p q. p < 1 \<and> 1 \<le> q \<and> q < length xs \<longrightarrow> key (arr ! p) \<le> key (arr ! q)"
    unfolding b(1) b(2) by (simp_all add: se)
  have "sorted_range key arr 0 (length arr - 1)"
    unfolding sorted_range_def
  proof (intro allI impI)
    fix p q assume h: "0 \<le> p \<and> p \<le> q \<and> q \<le> length arr - 1"
    show "key (arr ! p) \<le> key (arr ! q)"
    proof (cases "p = 0")
      case True
      show ?thesis
      proof (cases "q = 0")
        case True
        with \<open>p = 0\<close> show ?thesis by simp
      next
        case False
        then have "p < 1 \<and> 1 \<le> q \<and> q < length xs" using True h r(1) \<open>xs \<noteq> []\<close> by auto
        with r(4) show ?thesis by blast
      qed
    next
      case False
      then have "1 \<le> p \<and> p \<le> q \<and> q \<le> length xs - 1" using h r(1) by simp
      with r(3) show ?thesis unfolding sorted_range_def by blast
    qed
  qed
  then have "sorted (map key arr)" by (rule sorted_range_whole)
  then show ?thesis unfolding out using r(2) by simp
qed


section \<open>The final array of every sorting generator\<close>

lemma gt_by_shouldSwap: "gt_by (order_key val ord) (shouldSwap val ord)"
  by (simp add: gt_by_def order_key_def shouldSwap_def) 

lemma gt_by_shouldUpdateMinIndex: "gt_by (order_key val ord) (shouldUpdateMinIndex val ord)"
  by (simp add: gt_by_def order_key_def shouldUpdateMinIndex_def)

lemma gt_by_shouldShift: "gt_by (order_key val ord) (shouldShift val ord)"
  by (simp add: gt_by_def order_key_def shouldShift_def)

lemma gt_by_shouldHeapify: "gt_by (order_key val ord) (shouldHeapify val ord)"
  by (simp add: gt_by_def order_key_def shouldHeapify_def)

lemma le_by_shouldPartition: "le_by (order_key val ord) (shouldPartition val ord)"
  by (auto simp add: le_by_def order_key_def shouldPartition_def)

text \<open>
  A list of numbers with the elements of \<open>xs\<close> whose keys are in order is the canonical
  sort of \<open>xs\<close>.
\<close>

lemma canonical_sort_unique:
  assumes "mset ys = mset xs \<and> sorted (map (order_key (\<lambda>x. x) ord) ys)"
  shows "ys = canonical_sort ord xs"
proof (cases ord)
  case Ascending
  have "order_key (\<lambda>x. x) Ascending = (\<lambda>x :: int. x)"
    by (simp add: fun_eq_iff order_key_def)
  then have "sorted ys" using assms Ascending by simp
  with assms have "sort xs = ys" by (intro properties_for_sort) simp_all
  then show ?thesis using Ascending by (simp add: canonical_sort_def)
next
  case Descending
  have "order_key (\<lambda>x. x) Descending = (uminus :: int \<Rightarrow> int)"
    by (simp add: fun_eq_iff order_key_def)
  then have "sorted (map uminus ys)" using assms Descending by simp
  then have "sorted (rev ys)" by (simp add: sorted_map sorted_wrt_rev)
  moreover have "mset (rev ys) = mset xs" using assms by simp
  ultimately have "sort xs = rev ys" by (intro properties_for_sort)
  then show ?thesis using Descending by (simp add: canonical_sort_def)
qed

text \<open>
  C1.  For every list of numbers and both order flags, the final array of each of the
  six sorting generators (bubble, selection, insertion, quick, merge, heap) is the
  canonical sort of the input under that order: the sorted list for the ascending
  flag, its reverse for the descending flag.  The statement holds for lists of every
  length, so in particular for those of 2 to 50 numbers.
\<close>

theorem sorting_generators_sort:
  "finalArray (run_generator a xs ord) = canonical_sort ord xs"
proof (cases a)
  case BubbleSort
  then show ?thesis unfolding run_generator_def
    using canonical_sort_unique[OF bubbleSort_sorts[OF gt_by_shouldSwap]] by simp
next
  case SelectionSort
  then show ?thesis unfolding run_generator_def
    using canonical_sort_unique[OF selectionSort_sorts[OF gt_by_shouldUpdateMinIndex]] by simp
next
  case InsertionSort
  then show ?thesis unfolding run_generator_def
    using canonical_sort_unique[OF conjI[OF
       conjunct1[OF insertionSort_sorts_stably[OF gt_by_shouldShift]]
       conjunct1[OF conjunct2[OF insertionSort_sorts_stably[OF gt_by_shouldShift]]]]] by simp
next
  case QuickSort
  then show ?thesis unfolding run_generator_def
    using canonical_sort_unique[OF quickSort_sorts[OF le_by_shouldPartition]] by simp
next
  case MergeSort
  then show ?thesis unfolding run_generator_def
    using canonical_sort_unique[OF mergeSort_sorts[OF gt_by_shouldSwap]] by simp
next
  case HeapSort
  then show ?thesis unfolding run_generator_def
    using canonical_sort_unique[OF heapSort_sorts[OF gt_by_shouldHeapify]] by simp
qed


section \<open>Elements of equal number\<close>

lemma mergeSort_eval:
  "mergeSort_sort c val s l r =
    (if l < r then
       (let m = l + (r - l) div 2
        in mergeSort_merge c val (mergeSort_sort c val (mergeSort_sort c val s l m) (m + 1) r) l m r)
     else s)"
  "merge_loop c arr m r (i, j, temp, anims) =
    (if i \<le> m \<and> j \<le> r then
       (if c (arr ! j) (arr ! i)
        then merge_loop c arr m r
               (i + 1, j, temp @ [arr ! i],
                anims @ [anim Compare [int i, int j],
                         anim Reset_compare [int (i + 1) - 1, int j - 1]])
        else merge_loop c arr m r
               (i, j + 1, temp @ [arr ! j],
                anims @ [anim Compare [int i, int j],
                         anim Reset_compare [int i - 1, int (j + 1) - 1]]))
     else (i, j, temp, anims))"
  by (rule mergeSort_sort.simps, rule merge_loop.simps)

text \<open>
  \<^verbatim>\<open>insertionSort\<close> keeps the elements of equal number in the order they had in the
  input, for both order flags.
\<close>

theorem insertionSort_stable:
  "filter (\<lambda>y. val y = v) (finalArray (insertionSort val xs ord)) = filter (\<lambda>y. val y = v) xs"
proof -
  have "\<forall>k. filter (\<lambda>y. order_key val ord y = k) (finalArray (insertionSort val xs ord)) =
            filter (\<lambda>y. order_key val ord y = k) xs"
    using insertionSort_sorts_stably[OF gt_by_shouldShift] by blast
  then have "filter (\<lambda>y. order_key val ord y = order_key val ord z)
               (finalArray (insertionSort val xs ord)) =
             filter (\<lambda>y. order_key val ord y = order_key val ord z) xs" for z
    by blast
  moreover have "(order_key val ord y = order_key val ord z) = (val y = val z)" for y z
    by (simp add: order_key_def)
  ultimately have "filter (\<lambda>y. val y = val z) (finalArray (insertionSort val xs ord)) =
             filter (\<lambda>y. val y = val z) xs" for z
    by simp
  show ?thesis
  proof (cases "\<exists>z. val z = v")
    case True
    then obtain z where "val z = v" by blast
    with \<open>\<And>z. filter (\<lambda>y. val y = val z) (finalArray (insertionSort val xs ord)) =
             filter (\<lambda>y. val y = val z) xs\<close>[of z] show ?thesis by simp
  next
    case False
    then have "filter (\<lambda>y. val y = v) ys = []" for ys
      by (simp add: filter_empty_conv)
    then show ?thesis by simp
  qed
qed

text \<open>
  Claim C4 at two elements of equal number, told apart by their position in the
  input: \<^verbatim>\<open>merge\<close> takes the element of the right run when the two compared numbers are
  equal, so \<^verbatim>\<open>mergeSort\<close> returns the two elements in the other order, for both order
  flags.
\<close>

theorem mergeSort_reorders_equal_elements:
  "finalArray (mergeSort fst [(1, 0), (1, 1 :: nat)] Ascending) = [(1, 1), (1, 0)] \<and>
   finalArray (mergeSort fst [(1, 0), (1, 1 :: nat)] Descending) = [(1, 1), (1, 0)]"
  by (simp add: mergeSort_def mergeSort_eval mergeSort_merge_def shouldSwap_def Let_def
      mark_all_final_def anim_def)


end

